theory Spec2Isabelle
  imports Main "HOL-Library.Sublist"
begin

section \<open>Name and path validation (FeatureRep.cpp, lines 466--501)\<close>

text \<open>
  \<^verbatim>\<open>isalnum\<close> of the C library in the "C" locale: the ASCII digits and letters.
\<close>

definition isalnum :: "char \<Rightarrow> bool" where
  "isalnum c =
     (let n = (of_char c :: nat)
      in (48 \<le> n \<and> n \<le> 57) \<or> (65 \<le> n \<and> n \<le> 90) \<or> (97 \<le> n \<and> n \<le> 122))"

text \<open>
  The character loop of \<^verbatim>\<open>isLegalFeatureName\<close>: it returns false at the first
  character that is neither alphanumeric nor an underscore.
\<close>

fun name_loop :: "string \<Rightarrow> bool" where
  "name_loop [] = True"
| "name_loop (c # cs) = (if \<not> (isalnum c \<or> c = CHR ''_'') then False else name_loop cs)"

definition isLegalFeatureName :: "string \<Rightarrow> bool" where
  "isLegalFeatureName n = (if length n = 0 then False else name_loop n)"

text \<open>
  The inner loop of \<^verbatim>\<open>isLegalFeaturePathname\<close>:
  \<^verbatim>\<open>while (nxt < end && pathname[nxt] != '/') t += pathname[nxt++];\<close>
  It returns the segment \<open>t\<close> and the new value of \<open>nxt\<close>.
\<close>

function seg_loop :: "string \<Rightarrow> nat \<Rightarrow> string \<Rightarrow> string \<times> nat" where
  "seg_loop pathname nxt t =
     (if nxt < length pathname \<and> pathname ! nxt \<noteq> CHR ''/''
      then seg_loop pathname (Suc nxt) (t @ [pathname ! nxt])
      else (t, nxt))"
  by pat_completeness auto
termination
  by (relation "measure (\<lambda>(pathname, nxt, t). length pathname - nxt)") auto

declare seg_loop.simps [simp del]

text \<open>
  The outer loop. The optional out-parameter \<^verbatim>\<open>segments\<close> is \<open>None\<close> for a null
  pointer and otherwise holds the vector's contents; the result pairs the returned
  boolean with the final contents. The local \<^verbatim>\<open>t\<close> is empty at the start of every
  iteration (it is cleared at the end of the previous one).
\<close>

function path_loop :: "string \<Rightarrow> nat \<Rightarrow> string list option \<Rightarrow> bool \<Rightarrow> bool \<times> string list option" where
  "path_loop pathname nxt segments foundAtLeastOne =
     (if nxt < length pathname then
        (case seg_loop pathname nxt [] of
           (t, nxt') \<Rightarrow>
             (let segments' = map_option (\<lambda>s. s @ [t]) segments
              in if \<not> isLegalFeatureName t then (False, segments')
                 else path_loop pathname (Suc nxt') segments' True))
      else (foundAtLeastOne, segments))"
  by pat_completeness auto
termination
proof (relation "measure (\<lambda>(pathname, nxt, segments, found). length pathname - nxt)")
  show "wf (measure (\<lambda>(pathname, nxt, segments, found). length pathname - nxt))"
    by simp
next
  fix pathname :: string and nxt :: nat and segments :: "string list option"
    and foundAtLeastOne :: bool and x :: "string \<times> nat" and t :: string and nxt' :: nat
    and segments' :: "string list option"
  assume a: "nxt < length pathname" and b: "(t, nxt') = seg_loop pathname nxt []"
  have ge: "n \<le> snd (seg_loop p n u)" for p n u
  proof (induction p n u rule: seg_loop.induct)
    case (1 p n u)
    show ?case
    proof (cases "n < length p \<and> p ! n \<noteq> CHR ''/''")
      case True
      with "1" have "Suc n \<le> snd (seg_loop p (Suc n) (u @ [p ! n]))"
        by simp
      with True show ?thesis
        by (subst seg_loop.simps) simp
    next
      case False
      then show ?thesis
        by (subst seg_loop.simps) auto
    qed
  qed
  from b ge [of nxt pathname "[]"] have "nxt \<le> nxt'"
    by (metis snd_conv)
  with a show "((pathname, Suc nxt', segments', True), (pathname, nxt, segments, foundAtLeastOne))
      \<in> measure (\<lambda>(pathname, nxt, segments, found). length pathname - nxt)"
    by auto
qed

declare path_loop.simps [simp del]

definition isLegalFeaturePathname :: "string \<Rightarrow> string list option \<Rightarrow> bool \<times> string list option" where
  "isLegalFeaturePathname pathname segments =
     path_loop pathname 0 (map_option (\<lambda>s. []) segments) False"

text \<open>
  The split of a string on \<open>/\<close>, written after the words of the specification
  ("split on /"), to compare with what the loop captures: the pieces between
  consecutive slashes, in order; a string without a slash is its only piece.
\<close>

fun split_slash :: "string \<Rightarrow> string list" where
  "split_slash [] = [[]]"
| "split_slash (c # cs) =
     (if c = CHR ''/'' then [] # split_slash cs
      else (case split_slash cs of [] \<Rightarrow> [[c]] | t # ts \<Rightarrow> (c # t) # ts))"

abbreviation ne :: "char \<Rightarrow> bool" where "ne \<equiv> (\<lambda>c. c \<noteq> CHR ''/'')"

section \<open>The Feature tree (FeatureRep.cpp, the data of FeatureRep.h)\<close>

text \<open>
  A Feature handle owns its rep, and a rep stores the handles of its subfeatures by value
  in the vector \<^verbatim>\<open>subfeatures\<close>. The address of a Feature handle is therefore the place
  where it is stored: a free-standing handle, numbered by its position in the heap, and the
  child positions that lead from it down to the handle. Parent pointers, owner pointers and
  the references held by placements are such addresses, kept as data: they are weak, and
  nothing forces them to agree with the ownership structure (after the structural copy of
  a subtree they do not).
\<close>

type_synonym addr = "nat \<times> nat list"

text \<open>
  Modelled from the spec: the placement categories (section 3 of the specification), whose
  enumeration is declared outside this file, with the names that the throw sites of
  \<^verbatim>\<open>useFeatureAs...Placement\<close> pass for them.
\<close>

datatype placement_type =
    RealPlacementType | Vec3PlacementType | StationPlacementType
  | DirectionPlacementType | OrientationPlacementType | FramePlacementType

fun getPlacementTypeName :: "placement_type \<Rightarrow> string" where
  "getPlacementTypeName RealPlacementType = ''Real''"
| "getPlacementTypeName Vec3PlacementType = ''Vec3''"
| "getPlacementTypeName StationPlacementType = ''Station''"
| "getPlacementTypeName DirectionPlacementType = ''Direction''"
| "getPlacementTypeName OrientationPlacementType = ''Orientation''"
| "getPlacementTypeName FramePlacementType = ''Frame''"

text \<open>
  Modelled from the spec: a placement expression (PlacementRep, declared outside this
  file), by the attributes of section 3: its result category, the Features it references
  directly (a reference is a pointer and may be null), its reference to a value slot, its
  owner and its index within the owner's sequence (\<open>-1\<close> when it has no owner). A pointer to
  a placement or to a value slot is the address of the owning Feature handle together with
  the position in that Feature's vector.
\<close>

record placement_rep =
  placementType :: placement_type
  featureRefs :: "addr option list"
  valueRef :: "(addr \<times> nat) option"
  owner :: "addr option"
  indexInOwner :: int

record placement_value_rep =
  valueOwner :: "addr option"
  valueIndexInOwner :: int

text \<open>
  The members of FeatureRep that this file reads and writes. The virtual functions
  \<^verbatim>\<open>getFeatureTypeName\<close> and \<^verbatim>\<open>getRequiredPlacementType\<close> of the concrete Feature kinds
  are fields. The back pointer \<^verbatim>\<open>myHandle\<close> is the address of the rep itself.
\<close>

datatype feature_rep = FeatureRep
  (name: string)
  (featureTypeName: string)
  (requiredPlacementType: placement_type)
  (parent: "addr option")
  (indexInParent: int)
  (subfeatures: "feature_rep list")
  (placementExpressions: "placement_rep list")
  (placementValues: "placement_value_rep list")
  (placement: "(addr \<times> nat) option")

text \<open>
  The heap: the free-standing Feature handles, each with its rep or empty.
\<close>

type_synonym heap = "feature_rep option list"

fun subfeature_at :: "feature_rep \<Rightarrow> nat list \<Rightarrow> feature_rep option" where
  "subfeature_at f [] = Some f"
| "subfeature_at f (i # path) =
     (if i < length (subfeatures f) then subfeature_at (subfeatures f ! i) path else None)"

definition getRep :: "heap \<Rightarrow> addr \<Rightarrow> feature_rep option" where
  "getRep h a =
     (if fst a < length h
      then (case h ! fst a of None \<Rightarrow> None | Some f \<Rightarrow> subfeature_at f (snd a))
      else None)"

text \<open>
  What a call can do: not return (\<open>None\<close>), fail, or return a value. The failures are the
  exceptions thrown in this file, a failed \<^verbatim>\<open>assert\<close>, and an access that C++ leaves
  undefined (a handle without rep, a vector index out of range).
\<close>

datatype error =
    FeatureCantBeUsedAsPlacement string string string
  | PlacementCantBeUsedForThisFeature string string string
  | FeatureAndPlacementOnDifferentTrees string string
  | PlacementMustBeLocal string string string
  | AssertionFailed string
  | InvalidAccess string

type_synonym 'a result = "(error + 'a) option"

definition bindR :: "'a result \<Rightarrow> ('a \<Rightarrow> 'b result) \<Rightarrow> 'b result" where
  "bindR m f = (case m of None \<Rightarrow> None | Some (Inl e) \<Rightarrow> Some (Inl e) | Some (Inr x) \<Rightarrow> f x)"

section \<open>Tree Navigator (FeatureRep.cpp, lines 54--65 and 259--344)\<close>

text \<open>
  Modelled from the spec: \<^verbatim>\<open>getParentPtr\<close> (declared outside this file), the parent link
  that the navigator follows; a handle without rep has none.
\<close>

definition getParentPtr :: "heap \<Rightarrow> addr \<Rightarrow> addr option" where
  "getParentPtr h a = (case getRep h a of None \<Rightarrow> None | Some f \<Rightarrow> parent f)"

text \<open>
  \<^verbatim>\<open>getFullName\<close> and \<^verbatim>\<open>findRootFeature\<close> recurse along the parent pointers; they are
  members of the rep, so a handle without rep is an invalid access.
\<close>

partial_function (option) getFullName :: "heap \<Rightarrow> addr \<Rightarrow> string result" where
  "getFullName h a =
     (case getRep h a of
        None \<Rightarrow> Some (Inl (InvalidAccess ''getFullName''))
      | Some f \<Rightarrow>
          (case parent f of
             None \<Rightarrow> Some (Inr (name f))
           | Some p \<Rightarrow>
               Option.bind (getFullName h p)
                 (\<lambda>r. case r of Inl e \<Rightarrow> Some (Inl e)
                              | Inr s \<Rightarrow> Some (Inr (s @ ''/'' @ name f)))))"

declare getFullName.simps [code]

partial_function (option) findRootFeature :: "heap \<Rightarrow> addr \<Rightarrow> addr result" where
  "findRootFeature h a =
     (case getRep h a of
        None \<Rightarrow> Some (Inl (InvalidAccess ''findRootFeature''))
      | Some f \<Rightarrow>
          (case parent f of
             None \<Rightarrow> Some (Inr a)
           | Some p \<Rightarrow> findRootFeature h p))"

declare findRootFeature.simps [code]

text \<open>
  \<^verbatim>\<open>isFeatureInFeatureTree\<close>. The optional out-parameter \<^verbatim>\<open>trace\<close> is \<open>None\<close> for a null
  pointer and otherwise holds the vector's contents; the result pairs the returned boolean
  with the final contents.
\<close>

partial_function (option) isInTree_loop ::
    "heap \<Rightarrow> addr \<Rightarrow> addr \<Rightarrow> int list option \<Rightarrow> (bool \<times> int list option) option" where
  "isInTree_loop h oldp fp trace =
     (if fp \<noteq> oldp then
        (case getRep h fp of
           None \<Rightarrow> Some (False, map_option (\<lambda>t. []) trace)
         | Some rep \<Rightarrow>
             (case parent rep of
                None \<Rightarrow> Some (False, map_option (\<lambda>t. []) trace)
              | Some fpParent \<Rightarrow>
                  isInTree_loop h oldp fpParent
                    (map_option (\<lambda>t. t @ [indexInParent rep]) trace)))
      else Some (True, trace))"

declare isInTree_loop.simps [code]

definition isFeatureInFeatureTree ::
    "heap \<Rightarrow> addr \<Rightarrow> addr \<Rightarrow> int list option \<Rightarrow> (bool \<times> int list option) option" where
  "isFeatureInFeatureTree h oldRoot f trace =
     isInTree_loop h oldRoot f (map_option (\<lambda>t. []) trace)"

text \<open>
  Modelled from the spec: \<^verbatim>\<open>getSubfeature\<close> (declared outside this file) returns the
  handle stored at a position of the vector of subfeatures.
\<close>

definition getSubfeature :: "heap \<Rightarrow> addr \<Rightarrow> int \<Rightarrow> error + addr" where
  "getSubfeature h a i =
     (case getRep h a of
        None \<Rightarrow> Inl (InvalidAccess ''getSubfeature'')
      | Some f \<Rightarrow>
          (if 0 \<le> i \<and> i < int (length (subfeatures f))
           then Inr (fst a, snd a @ [nat i])
           else Inl (InvalidAccess ''getSubfeature'')))"

text \<open>
  The loop of \<^verbatim>\<open>findCorrespondingFeature\<close>:
  \<^verbatim>\<open>for (size_t i=trace.size(); i >=1; --i) newTreeRef = ...getSubfeature(trace[i-1]);\<close>
\<close>

fun replay_loop :: "heap \<Rightarrow> int list \<Rightarrow> nat \<Rightarrow> addr \<Rightarrow> error + addr" where
  "replay_loop h trace 0 newTreeRef = Inr newTreeRef"
| "replay_loop h trace (Suc i) newTreeRef =
     (case getSubfeature h newTreeRef (trace ! i) of
        Inl e \<Rightarrow> Inl e
      | Inr c \<Rightarrow> replay_loop h trace i c)"

definition findCorrespondingFeature :: "heap \<Rightarrow> addr \<Rightarrow> addr \<Rightarrow> addr \<Rightarrow> addr option result" where
  "findCorrespondingFeature h oldRoot f newRoot =
     (case isFeatureInFeatureTree h oldRoot f (Some []) of
        None \<Rightarrow> None
      | Some (False, _) \<Rightarrow> Some (Inr None)
      | Some (True, None) \<Rightarrow> Some (Inr None)
      | Some (True, Some trace) \<Rightarrow>
          (case replay_loop h trace (length trace) newRoot of
             Inl e \<Rightarrow> Some (Inl e)
           | Inr newTreeRef \<Rightarrow> Some (Inr (Some newTreeRef))))"

text \<open>
  \<^verbatim>\<open>findYoungestCommonAncestor\<close>: the two loops that collect the paths from the nodes to
  their roots, and the scan from the root end.
\<close>

partial_function (option) path_loop_up :: "heap \<Rightarrow> addr option \<Rightarrow> addr list \<Rightarrow> addr list option" where
  "path_loop_up h fp fpath =
     (case fp of
        None \<Rightarrow> Some fpath
      | Some a \<Rightarrow> path_loop_up h (getParentPtr h a) (fpath @ [a]))"

declare path_loop_up.simps [code]

fun ancestor_loop :: "addr list \<Rightarrow> addr list \<Rightarrow> nat \<Rightarrow> nat \<Rightarrow> addr option \<Rightarrow> addr option" where
  "ancestor_loop f1path f2path (Suc i1) (Suc i2) ancestor =
     (if f1path ! i1 \<noteq> f2path ! i2 then ancestor
      else ancestor_loop f1path f2path i1 i2 (Some (f1path ! i1)))"
| "ancestor_loop f1path f2path i1 i2 ancestor = ancestor"

definition findYoungestCommonAncestor :: "heap \<Rightarrow> addr \<Rightarrow> addr \<Rightarrow> addr option option" where
  "findYoungestCommonAncestor h f1 f2 =
     (case path_loop_up h (Some f1) [] of
        None \<Rightarrow> None
      | Some f1path \<Rightarrow>
          (case path_loop_up h (Some f2) [] of
             None \<Rightarrow> None
           | Some f2path \<Rightarrow>
               Some (ancestor_loop f1path f2path (length f1path) (length f2path) None)))"

section \<open>Notions used to state the properties of the navigator\<close>

text \<open>
  Following the parent chain of \<open>f\<close> reaches \<open>root\<close>: in no step, or by a step to the
  parent and from there.
\<close>

inductive reaches :: "heap \<Rightarrow> addr \<Rightarrow> addr \<Rightarrow> bool" for h :: heap where
  reaches_self: "reaches h f f"
| reaches_step: "getParentPtr h f = Some p \<Longrightarrow> reaches h p root \<Longrightarrow> reaches h f root"

code_pred reaches .

text \<open>
  Descending from a Feature along a sequence of child indices read front to back: the
  sequence of child indices from a root down to a Feature, in top-down order.
\<close>

fun follow_down :: "heap \<Rightarrow> addr \<Rightarrow> int list \<Rightarrow> error + addr" where
  "follow_down h a [] = Inr a"
| "follow_down h a (i # rest) =
     (case getSubfeature h a i of Inl e \<Rightarrow> Inl e | Inr c \<Rightarrow> follow_down h c rest)"

text \<open>
  Invariant 1 of the specification (parent/child consistency): every subfeature records
  the handle that holds it as its parent and its position as its index, and a
  free-standing handle records no parent.
\<close>

fun parents_ok :: "addr \<Rightarrow> feature_rep \<Rightarrow> bool"
  and parents_ok_list :: "addr \<Rightarrow> nat \<Rightarrow> feature_rep list \<Rightarrow> bool" where
  "parents_ok a (FeatureRep nm tn rt par idx subs pes pvs pl) = parents_ok_list a 0 subs"
| "parents_ok_list a i [] = True"
| "parents_ok_list a i (c # cs) =
     (parent c = Some a \<and> indexInParent c = int i
      \<and> parents_ok (fst a, snd a @ [i]) c \<and> parents_ok_list a (Suc i) cs)"

fun roots_ok :: "nat \<Rightarrow> heap \<Rightarrow> bool" where
  "roots_ok r [] = True"
| "roots_ok r (None # hs) = roots_ok (Suc r) hs"
| "roots_ok r (Some t # hs) = (parent t = None \<and> parents_ok (r, []) t \<and> roots_ok (Suc r) hs)"

definition parents_consistent :: "heap \<Rightarrow> bool" where
  "parents_consistent h = roots_ok 0 h"

text \<open>
  An example: one tree \<open>Root{A{X, Z}, B{Y}}\<close> and one empty handle. \<open>X\<close> is a
  Feature of the kind RealParameter, which requires a Real placement.
\<close>

definition leaf :: "string \<Rightarrow> addr \<Rightarrow> int \<Rightarrow> feature_rep" where
  "leaf nm p i = FeatureRep nm ''Station'' StationPlacementType (Some p) i [] [] [] None"

definition real_parameter :: "string \<Rightarrow> addr \<Rightarrow> int \<Rightarrow> feature_rep" where
  "real_parameter nm p i =
     FeatureRep nm ''RealParameter'' RealPlacementType (Some p) i [] [] [] None"

definition example_heap :: heap where
  "example_heap =
     [Some (FeatureRep ''Root'' ''Frame'' FramePlacementType None (-1)
        [FeatureRep ''A'' ''Frame'' FramePlacementType (Some (0, [])) 0
           [real_parameter ''X'' (0, [0]) 0, leaf ''Z'' (0, [0]) 1] [] [] None,
         FeatureRep ''B'' ''Frame'' FramePlacementType (Some (0, [])) 1
           [leaf ''Y'' (0, [1]) 0] [] [] None]
        [] [] None),
      None]"

section \<open>Registration of placements (FeatureRep.cpp, lines 226--257)\<close>

text \<open>
  Writing a member of a rep. The setters change one member and keep the others.
\<close>

fun setParentFeature :: "addr \<Rightarrow> int \<Rightarrow> feature_rep \<Rightarrow> feature_rep" where
  "setParentFeature p i (FeatureRep nm tn rt par idx subs pes pvs pl) =
     FeatureRep nm tn rt (Some p) i subs pes pvs pl"

fun clearParent :: "feature_rep \<Rightarrow> feature_rep" where
  "clearParent (FeatureRep nm tn rt par idx subs pes pvs pl) =
     FeatureRep nm tn rt None (- 1) subs pes pvs pl"

fun setSubfeatures :: "feature_rep list \<Rightarrow> feature_rep \<Rightarrow> feature_rep" where
  "setSubfeatures subs' (FeatureRep nm tn rt par idx subs pes pvs pl) =
     FeatureRep nm tn rt par idx subs' pes pvs pl"

fun setPlacementExpressions :: "placement_rep list \<Rightarrow> feature_rep \<Rightarrow> feature_rep" where
  "setPlacementExpressions pes' (FeatureRep nm tn rt par idx subs pes pvs pl) =
     FeatureRep nm tn rt par idx subs pes' pvs pl"

fun setPlacementValues :: "placement_value_rep list \<Rightarrow> feature_rep \<Rightarrow> feature_rep" where
  "setPlacementValues pvs' (FeatureRep nm tn rt par idx subs pes pvs pl) =
     FeatureRep nm tn rt par idx subs pes pvs' pl"

fun setPlacement :: "(addr \<times> nat) option \<Rightarrow> feature_rep \<Rightarrow> feature_rep" where
  "setPlacement pl' (FeatureRep nm tn rt par idx subs pes pvs pl) =
     FeatureRep nm tn rt par idx subs pes pvs pl'"

text \<open>
  Writing through a handle: the rep at an address is replaced by its image under \<open>g\<close>; a
  handle that does not exist or has no rep leaves the heap as it is.
\<close>

fun update_at :: "feature_rep \<Rightarrow> nat list \<Rightarrow> (feature_rep \<Rightarrow> feature_rep) \<Rightarrow> feature_rep" where
  "update_at f [] g = g f"
| "update_at f (i # path) g =
     (if i < length (subfeatures f)
      then setSubfeatures ((subfeatures f)[i := update_at (subfeatures f ! i) path g]) f
      else f)"

definition updRep :: "heap \<Rightarrow> addr \<Rightarrow> (feature_rep \<Rightarrow> feature_rep) \<Rightarrow> heap" where
  "updRep h a g =
     (if fst a < length h
      then (case h ! fst a of None \<Rightarrow> h | Some f \<Rightarrow> h[fst a := Some (update_at f (snd a) g)])
      else h)"

text \<open>
  Dereferencing a pointer to a placement or to a value slot.
\<close>

definition getPlacementExpression :: "heap \<Rightarrow> addr \<times> nat \<Rightarrow> placement_rep option" where
  "getPlacementExpression h p =
     (case getRep h (fst p) of
        None \<Rightarrow> None
      | Some f \<Rightarrow>
          (if snd p < length (placementExpressions f)
           then Some (placementExpressions f ! snd p) else None))"

definition getPlacementValue :: "heap \<Rightarrow> addr \<times> nat \<Rightarrow> placement_value_rep option" where
  "getPlacementValue h v =
     (case getRep h (fst v) of
        None \<Rightarrow> None
      | Some f \<Rightarrow>
          (if snd v < length (placementValues f)
           then Some (placementValues f ! snd v) else None))"

text \<open>
  Modelled from the spec: the capability surface of a placement (section 6 of the
  specification; the member functions of PlacementRep are declared outside this file).

  \<^verbatim>\<open>isLimitedToSubtree\<close> reports whether all referenced Features lie within a given
  subtree and names the first offender if not: the result is the first referenced Feature
  that is not in the tree of \<open>root\<close>, if there is one. A null reference refers to nothing.
\<close>

fun isLimitedToSubtree_loop :: "heap \<Rightarrow> addr \<Rightarrow> addr option list \<Rightarrow> addr option option" where
  "isLimitedToSubtree_loop h root [] = Some None"
| "isLimitedToSubtree_loop h root (None # refs) = isLimitedToSubtree_loop h root refs"
| "isLimitedToSubtree_loop h root (Some f # refs) =
     (case isFeatureInFeatureTree h root f None of
        None \<Rightarrow> None
      | Some (True, _) \<Rightarrow> isLimitedToSubtree_loop h root refs
      | Some (False, _) \<Rightarrow> Some (Some f))"

definition isLimitedToSubtree :: "heap \<Rightarrow> placement_rep \<Rightarrow> addr \<Rightarrow> addr option option" where
  "isLimitedToSubtree h p root = isLimitedToSubtree_loop h root (featureRefs p)"

text \<open>
  Modelled from the spec: \<^verbatim>\<open>findAncestorFeature\<close> computes the youngest allowed ancestor
  given a bound, the youngest common ancestor of the bound and every referenced Feature,
  taken pairwise: a fold over the references that starts from the bound.
\<close>

fun findAncestor_loop :: "heap \<Rightarrow> addr option \<Rightarrow> addr option list \<Rightarrow> addr option option" where
  "findAncestor_loop h ancestor [] = Some ancestor"
| "findAncestor_loop h ancestor (None # refs) = findAncestor_loop h ancestor refs"
| "findAncestor_loop h None (Some f # refs) = Some None"
| "findAncestor_loop h (Some a) (Some f # refs) =
     (case findYoungestCommonAncestor h a f of
        None \<Rightarrow> None
      | Some ancestor \<Rightarrow> findAncestor_loop h ancestor refs)"

definition findAncestorFeature :: "heap \<Rightarrow> placement_rep \<Rightarrow> addr \<Rightarrow> addr option option" where
  "findAncestorFeature h p youngestAllowed =
     findAncestor_loop h (Some youngestAllowed) (featureRefs p)"

text \<open>
  Modelled from the spec: a placement that references no Feature is a constant.
\<close>

definition isConstant :: "placement_rep \<Rightarrow> bool" where
  "isConstant p = (featureRefs p = [])"

text \<open>
  Modelled from the spec: \<^verbatim>\<open>dependsOn\<close> tests the transitive dependency of a placement
  on a Feature: the placement references the Feature, or it references a Feature whose
  active placement depends on it.
\<close>

partial_function (option) dependsOn_loop :: "heap \<Rightarrow> addr option list \<Rightarrow> addr \<Rightarrow> bool result" where
  "dependsOn_loop h refs f =
     (case refs of
        [] \<Rightarrow> Some (Inr False)
      | r # rest \<Rightarrow>
          (case r of
             None \<Rightarrow> dependsOn_loop h rest f
           | Some g \<Rightarrow>
               (if g = f then Some (Inr True)
                else
                  (case getRep h g of
                     None \<Rightarrow> Some (Inl (InvalidAccess ''dependsOn''))
                   | Some grep \<Rightarrow>
                       (case placement grep of
                          None \<Rightarrow> dependsOn_loop h rest f
                        | Some pl \<Rightarrow>
                            (case getPlacementExpression h pl of
                               None \<Rightarrow> Some (Inl (InvalidAccess ''dependsOn''))
                             | Some pr \<Rightarrow>
                                 Option.bind (dependsOn_loop h (featureRefs pr) f)
                                   (\<lambda>d. case d of
                                          Inl e \<Rightarrow> Some (Inl e)
                                        | Inr b \<Rightarrow>
                                            (if b then Some (Inr True)
                                             else dependsOn_loop h rest f))))))))"

declare dependsOn_loop.simps [code]

definition dependsOn :: "heap \<Rightarrow> placement_rep \<Rightarrow> addr \<Rightarrow> bool result" where
  "dependsOn h p f = dependsOn_loop h (featureRefs p) f"

text \<open>
  Modelled from the spec: \<^verbatim>\<open>cloneUnownedWithNewHandle\<close> produces a structurally
  independent, unowned copy of the placement, and \<^verbatim>\<open>setOwner\<close> stamps it with its
  owner and index.
\<close>

definition cloneUnowned :: "placement_rep \<Rightarrow> placement_rep" where
  "cloneUnowned p = p\<lparr>owner := None, indexInOwner := - 1\<rparr>"

definition setOwner :: "addr \<Rightarrow> int \<Rightarrow> placement_rep \<Rightarrow> placement_rep" where
  "setOwner ow i p = p\<lparr>owner := Some ow, indexInOwner := i\<rparr>"

definition setValueOwner :: "addr \<Rightarrow> int \<Rightarrow> placement_value_rep \<Rightarrow> placement_value_rep" where
  "setValueOwner ow i v = v\<lparr>valueOwner := Some ow, valueIndexInOwner := i\<rparr>"

text \<open>
  \<^verbatim>\<open>addPlacementLike\<close>, called on the rep at \<open>this\<close>. It returns the new heap and the
  reference to the stored placement.
\<close>

definition addPlacementLike :: "heap \<Rightarrow> addr \<Rightarrow> placement_rep \<Rightarrow> (heap \<times> (addr \<times> nat)) result" where
  "addPlacementLike h this p =
     (case getRep h this of
        None \<Rightarrow> Some (Inl (InvalidAccess ''addPlacementLike''))
      | Some rep \<Rightarrow>
          (case isLimitedToSubtree h p this of
             None \<Rightarrow> None
           | Some (Some offender) \<Rightarrow>
               bindR (getFullName h this) (\<lambda>thisName.
               bindR (getFullName h offender) (\<lambda>offenderName.
                 Some (Inl (PlacementMustBeLocal ''FeatureRep::addPlacementLike''
                              thisName offenderName))))
           | Some None \<Rightarrow>
               (let index = length (placementExpressions rep);
                    newPlacement = setOwner this (int index) (cloneUnowned p)
                in Some (Inr (updRep h this
                                (setPlacementExpressions (placementExpressions rep @ [newPlacement])),
                              (this, index))))))"

definition addPlacementValueLike ::
    "heap \<Rightarrow> addr \<Rightarrow> placement_value_rep \<Rightarrow> (heap \<times> (addr \<times> nat)) result" where
  "addPlacementValueLike h this v =
     (case getRep h this of
        None \<Rightarrow> Some (Inl (InvalidAccess ''addPlacementValueLike''))
      | Some rep \<Rightarrow>
          (let index = length (placementValues rep);
               newPlacementValue = setValueOwner this (int index) v
           in Some (Inr (updRep h this
                           (setPlacementValues (placementValues rep @ [newPlacementValue])),
                         (this, index)))))"

section \<open>Placement Ownership Resolver (FeatureRep.cpp, lines 134--211)\<close>

text \<open>
  The sanity checks at the end of \<^verbatim>\<open>place\<close>, made on the stored placement \<open>good\<close>
  before the Feature records it. A failed \<^verbatim>\<open>assert\<close> is a failure of the call.
\<close>

definition place_checks :: "heap \<Rightarrow> addr \<Rightarrow> addr \<times> nat \<Rightarrow> unit result" where
  "place_checks h this good =
     (case getPlacementExpression h good of
        None \<Rightarrow> Some (Inl (InvalidAccess ''good''))
      | Some gp \<Rightarrow>
          (case owner gp of
             None \<Rightarrow> Some (Inl (AssertionFailed ''good.hasOwner()''))
           | Some goodOwner \<Rightarrow>
               (if \<not> (isConstant gp \<or> goodOwner \<noteq> this)
                then Some (Inl (AssertionFailed
                       ''good.isConstant() || !good.getOwner().isSameFeature(getMyHandle())''))
                else
                  (case isFeatureInFeatureTree h goodOwner this None of
                     None \<Rightarrow> None
                   | Some (inTree, _) \<Rightarrow>
                       (if \<not> inTree
                        then Some (Inl (AssertionFailed
                               ''FeatureRep::isFeatureInFeatureTree(good.getOwner(), getMyHandle())''))
                        else
                          bindR (dependsOn h gp this) (\<lambda>d.
                            if d then Some (Inl (AssertionFailed ''!good.dependsOn(getMyHandle())''))
                            else Some (Inr ())))))))"

text \<open>
  \<^verbatim>\<open>place\<close>, called on the rep at \<open>this\<close>. The conversion
  \<^verbatim>\<open>convertToRequiredPlacementType\<close> and the hook \<^verbatim>\<open>postProcessNewPlacement\<close> belong
  to the concrete Feature kinds and are parameters; a conversion that yields a placement
  without rep yields \<open>None\<close>.
\<close>

definition place ::
    "(heap \<Rightarrow> addr \<Rightarrow> placement_rep \<Rightarrow> placement_rep option) \<Rightarrow> (heap \<Rightarrow> addr \<Rightarrow> heap)
     \<Rightarrow> heap \<Rightarrow> addr \<Rightarrow> placement_rep \<Rightarrow> heap result" where
  "place convertToRequiredPlacementType postProcessNewPlacement h this p =
     (case getRep h this of
        None \<Rightarrow> Some (Inl (InvalidAccess ''place''))
      | Some rep \<Rightarrow>
          (case (if placementType p = requiredPlacementType rep then Some p
                 else convertToRequiredPlacementType h this p) of
             None \<Rightarrow>
               bindR (getFullName h this) (\<lambda>thisName.
                 Some (Inl (PlacementCantBeUsedForThisFeature
                              (getPlacementTypeName (placementType p))
                              thisName (featureTypeName rep))))
           | Some pTweaked \<Rightarrow>
               (if placementType pTweaked \<noteq> requiredPlacementType rep
                then Some (Inl (AssertionFailed
                       ''pTweaked.getRep().getPlacementType() == getRequiredPlacementType()''))
                else
                  bindR (findRootFeature h this) (\<lambda>root.
                    (case isLimitedToSubtree h pTweaked root of
                       None \<Rightarrow> None
                     | Some (Some offender) \<Rightarrow>
                         bindR (getFullName h this) (\<lambda>thisName.
                         bindR (getFullName h offender) (\<lambda>offenderName.
                           Some (Inl (FeatureAndPlacementOnDifferentTrees thisName offenderName))))
                     | Some None \<Rightarrow>
                         (let youngestAllowed = (case parent rep of Some par \<Rightarrow> par | None \<Rightarrow> this)
                          in (case findAncestorFeature h pTweaked youngestAllowed of
                                None \<Rightarrow> None
                              | Some None \<Rightarrow> Some (Inl (AssertionFailed ''commonAncestor''))
                              | Some (Some commonAncestor) \<Rightarrow>
                                  bindR (addPlacementLike h commonAncestor pTweaked) (\<lambda>(h1, good).
                                  bindR (place_checks h1 this good) (\<lambda>_.
                                    Some (Inr (postProcessNewPlacement
                                                 (updRep h1 this (setPlacement (Some good)))
                                                 this)))))))))))"

text \<open>
  Example parameters and placements: a Feature kind without conversions and without
  hook, a constant placement of a category, and a placement of a category that
  references one Feature.
\<close>

definition no_conversion :: "heap \<Rightarrow> addr \<Rightarrow> placement_rep \<Rightarrow> placement_rep option" where
  "no_conversion h a p = None"

definition no_hook :: "heap \<Rightarrow> addr \<Rightarrow> heap" where
  "no_hook h a = h"

definition constant_placement :: "placement_type \<Rightarrow> placement_rep" where
  "constant_placement t =
     \<lparr>placementType = t, featureRefs = [], valueRef = None, owner = None, indexInOwner = - 1\<rparr>"

definition reference_placement :: "placement_type \<Rightarrow> addr \<Rightarrow> placement_rep" where
  "reference_placement t a =
     \<lparr>placementType = t, featureRefs = [Some a], valueRef = None, owner = None,
      indexInOwner = - 1\<rparr>"

definition example_A :: feature_rep where
  "example_A =
     FeatureRep ''A'' ''Frame'' FramePlacementType (Some (0, [])) 0
       [real_parameter ''X'' (0, [0]) 0, leaf ''Z'' (0, [0]) 1] [] [] None"

section \<open>Subtree Cloner (FeatureRep.cpp, lines 117--132 and 384--464)\<close>

text \<open>
  \<^verbatim>\<open>reparentMyChildren\<close>, called on the rep stored at \<open>me\<close>. It reads and writes
  members of the reps of the subtree only, so it is a function of the subtree. The loops
  over the subfeatures, the placement expressions and the placement values count the
  index \<open>i\<close>; a failed \<^verbatim>\<open>assert\<close> is a failure of the call. A subfeature's own parent
  and index are members that the recursive call on it does not touch.
\<close>

fun reparent_expressions :: "addr \<Rightarrow> nat \<Rightarrow> placement_rep list \<Rightarrow> error + placement_rep list" where
  "reparent_expressions me i [] = Inr []"
| "reparent_expressions me i (p # ps) =
     (if owner p = None
      then Inl (AssertionFailed ''placementExpressions[i].getRep().hasOwner()'')
      else if indexInOwner p \<noteq> int i
      then Inl (AssertionFailed ''placementExpressions[i].getRep().getIndexInOwner() == i'')
      else (case reparent_expressions me (Suc i) ps of
              Inl e \<Rightarrow> Inl e
            | Inr ps' \<Rightarrow> Inr (setOwner me (int i) p # ps')))"

fun reparent_values ::
    "addr \<Rightarrow> nat \<Rightarrow> placement_value_rep list \<Rightarrow> error + placement_value_rep list" where
  "reparent_values me i [] = Inr []"
| "reparent_values me i (v # vs) =
     (if valueOwner v = None
      then Inl (AssertionFailed ''placementValues[i].getRep().hasOwner()'')
      else if valueIndexInOwner v \<noteq> int i
      then Inl (AssertionFailed ''placementValues[i].getRep().getIndexInOwner() == i'')
      else (case reparent_values me (Suc i) vs of
              Inl e \<Rightarrow> Inl e
            | Inr vs' \<Rightarrow> Inr (setValueOwner me (int i) v # vs')))"

fun reparentMyChildren :: "addr \<Rightarrow> feature_rep \<Rightarrow> error + feature_rep"
  and reparent_subfeatures :: "addr \<Rightarrow> nat \<Rightarrow> feature_rep list \<Rightarrow> error + feature_rep list" where
  "reparentMyChildren me (FeatureRep nm tn rt par idx subs pes pvs pl) =
     (case reparent_subfeatures me 0 subs of
        Inl e \<Rightarrow> Inl e
      | Inr subs' \<Rightarrow>
          (case reparent_expressions me 0 pes of
             Inl e \<Rightarrow> Inl e
           | Inr pes' \<Rightarrow>
               (case reparent_values me 0 pvs of
                  Inl e \<Rightarrow> Inl e
                | Inr pvs' \<Rightarrow> Inr (FeatureRep nm tn rt par idx subs' pes' pvs' pl))))"
| "reparent_subfeatures me i [] = Inr []"
| "reparent_subfeatures me i (c # cs) =
     (if parent c = None
      then Inl (AssertionFailed ''subfeatures[i].getRep().hasParentFeature()'')
      else if indexInParent c \<noteq> int i
      then Inl (AssertionFailed ''subfeatures[i].getRep().getIndexInParent() == i'')
      else (case reparentMyChildren (fst me, snd me @ [i]) c of
              Inl e \<Rightarrow> Inl e
            | Inr c' \<Rightarrow>
                (case reparent_subfeatures me (Suc i) cs of
                   Inl e \<Rightarrow> Inl e
                 | Inr cs' \<Rightarrow> Inr (setParentFeature me (int i) c' # cs'))))"

text \<open>
  \<^verbatim>\<open>findCorrespondingPlacement\<close> and \<^verbatim>\<open>findCorrespondingPlacementValue\<close>. The
  placement or value is given by a pointer, which is dereferenced; the result is a pointer
  or null.
\<close>

definition findCorrespondingPlacement ::
    "heap \<Rightarrow> addr \<Rightarrow> addr \<times> nat \<Rightarrow> addr \<Rightarrow> (addr \<times> nat) option result" where
  "findCorrespondingPlacement h oldRoot p newRoot =
     (case getPlacementExpression h p of
        None \<Rightarrow> Some (Inl (InvalidAccess ''findCorrespondingPlacement''))
      | Some pr \<Rightarrow>
          (case owner pr of
             None \<Rightarrow> Some (Inr None)
           | Some pOwner \<Rightarrow>
               bindR (findCorrespondingFeature h oldRoot pOwner newRoot) (\<lambda>corr.
                 (case corr of
                    None \<Rightarrow> Some (Inr None)
                  | Some corrOwner \<Rightarrow>
                      (case getRep h corrOwner of
                         None \<Rightarrow> Some (Inl (AssertionFailed ''corrOwner->hasRep()''))
                       | Some crep \<Rightarrow>
                           (if \<not> (0 \<le> indexInOwner pr
                                   \<and> indexInOwner pr < int (length (placementExpressions crep)))
                            then Some (Inl (InvalidAccess ''getPlacementExpression''))
                            else
                              (let newTreeRef = (corrOwner, nat (indexInOwner pr));
                                   np = placementExpressions crep ! nat (indexInOwner pr)
                               in if owner np \<noteq> Some corrOwner
                                  then Some (Inl (AssertionFailed
                                         ''&newTreeRef->getOwner() == corrOwner''))
                                  else if indexInOwner np \<noteq> indexInOwner pr
                                  then Some (Inl (AssertionFailed
                                         ''newTreeRef->getIndexInOwner() == p.getIndexInOwner()''))
                                  else Some (Inr (Some newTreeRef)))))))))"

definition findCorrespondingPlacementValue ::
    "heap \<Rightarrow> addr \<Rightarrow> addr \<times> nat \<Rightarrow> addr \<Rightarrow> (addr \<times> nat) option result" where
  "findCorrespondingPlacementValue h oldRoot v newRoot =
     (case getPlacementValue h v of
        None \<Rightarrow> Some (Inl (InvalidAccess ''findCorrespondingPlacementValue''))
      | Some vr \<Rightarrow>
          (case valueOwner vr of
             None \<Rightarrow> Some (Inr None)
           | Some vOwner \<Rightarrow>
               bindR (findCorrespondingFeature h oldRoot vOwner newRoot) (\<lambda>corr.
                 (case corr of
                    None \<Rightarrow> Some (Inr None)
                  | Some corrOwner \<Rightarrow>
                      (case getRep h corrOwner of
                         None \<Rightarrow> Some (Inl (AssertionFailed ''corrOwner->hasRep()''))
                       | Some crep \<Rightarrow>
                           (if \<not> (0 \<le> valueIndexInOwner vr
                                   \<and> valueIndexInOwner vr < int (length (placementValues crep)))
                            then Some (Inl (InvalidAccess ''getPlacementValue''))
                            else
                              (let newTreeRef = (corrOwner, nat (valueIndexInOwner vr));
                                   nv = placementValues crep ! nat (valueIndexInOwner vr)
                               in if valueOwner nv \<noteq> Some corrOwner
                                  then Some (Inl (AssertionFailed
                                         ''&newTreeRef->getOwner() == corrOwner''))
                                  else if valueIndexInOwner nv \<noteq> valueIndexInOwner vr
                                  then Some (Inl (AssertionFailed
                                         ''newTreeRef->getIndexInOwner() == v.getIndexInOwner()''))
                                  else Some (Inr (Some newTreeRef)))))))))"

text \<open>
  Modelled from the spec: \<^verbatim>\<open>repairFeatureReferences\<close> and
  \<^verbatim>\<open>repairValueReference\<close> (members of PlacementRep, declared outside this file) remap
  every Feature reference and the value reference of a placement from the old identity to
  the new one via the correspondence lookups; a reference whose source lies outside the
  original subtree resolves to none.
\<close>

fun repair_refs :: "heap \<Rightarrow> addr \<Rightarrow> addr \<Rightarrow> addr option list \<Rightarrow> addr option list result" where
  "repair_refs h oldRoot newRoot [] = Some (Inr [])"
| "repair_refs h oldRoot newRoot (None # refs) =
     bindR (repair_refs h oldRoot newRoot refs) (\<lambda>refs'. Some (Inr (None # refs')))"
| "repair_refs h oldRoot newRoot (Some f # refs) =
     bindR (findCorrespondingFeature h oldRoot f newRoot) (\<lambda>corr.
     bindR (repair_refs h oldRoot newRoot refs) (\<lambda>refs'. Some (Inr (corr # refs'))))"

definition repairFeatureReferences ::
    "heap \<Rightarrow> addr \<Rightarrow> addr \<Rightarrow> placement_rep \<Rightarrow> placement_rep result" where
  "repairFeatureReferences h oldRoot newRoot p =
     bindR (repair_refs h oldRoot newRoot (featureRefs p)) (\<lambda>refs'.
       Some (Inr (p\<lparr>featureRefs := refs'\<rparr>)))"

definition repairValueReference ::
    "heap \<Rightarrow> addr \<Rightarrow> addr \<Rightarrow> placement_rep \<Rightarrow> placement_rep result" where
  "repairValueReference h oldRoot newRoot p =
     (case valueRef p of
        None \<Rightarrow> Some (Inr p)
      | Some v \<Rightarrow>
          bindR (findCorrespondingPlacementValue h oldRoot v newRoot) (\<lambda>v'.
            Some (Inr (p\<lparr>valueRef := v'\<rparr>))))"

text \<open>
  \<^verbatim>\<open>fixPlacements\<close>, called on a rep of the copy. Everything it reads (parent pointers,
  indices, the numbers of subfeatures, the owners and indices of placements and values)
  is left as it is by what it writes (Feature references, value references and the
  pointers to the active placements), so all reads are made in the heap \<open>h\<close> as it is when
  the pass starts, and the function returns the rep as it is when the pass ends.
\<close>

fun fix_expressions :: "heap \<Rightarrow> addr \<Rightarrow> addr \<Rightarrow> placement_rep list \<Rightarrow> placement_rep list result" where
  "fix_expressions h oldRoot newRoot [] = Some (Inr [])"
| "fix_expressions h oldRoot newRoot (p # ps) =
     bindR (repairFeatureReferences h oldRoot newRoot p) (\<lambda>p1.
     bindR (repairValueReference h oldRoot newRoot p1) (\<lambda>p2.
     bindR (fix_expressions h oldRoot newRoot ps) (\<lambda>ps'. Some (Inr (p2 # ps')))))"

fun fixPlacements :: "heap \<Rightarrow> addr \<Rightarrow> addr \<Rightarrow> feature_rep \<Rightarrow> feature_rep result"
  and fix_subfeatures :: "heap \<Rightarrow> addr \<Rightarrow> addr \<Rightarrow> feature_rep list \<Rightarrow> feature_rep list result" where
  "fixPlacements h oldRoot newRoot (FeatureRep nm tn rt par idx subs pes pvs pl) =
     (case fix_subfeatures h oldRoot newRoot subs of
        None \<Rightarrow> None
      | Some (Inl e) \<Rightarrow> Some (Inl e)
      | Some (Inr subs') \<Rightarrow>
          bindR (fix_expressions h oldRoot newRoot pes) (\<lambda>pes'.
          bindR (case pl of
                   None \<Rightarrow> Some (Inr None)
                 | Some p \<Rightarrow> findCorrespondingPlacement h oldRoot p newRoot) (\<lambda>pl'.
            Some (Inr (FeatureRep nm tn rt par idx subs' pes' pvs pl')))))"
| "fix_subfeatures h oldRoot newRoot [] = Some (Inr [])"
| "fix_subfeatures h oldRoot newRoot (c # cs) =
     (case fixPlacements h oldRoot newRoot c of
        None \<Rightarrow> None
      | Some (Inl e) \<Rightarrow> Some (Inl e)
      | Some (Inr c') \<Rightarrow>
          (case fix_subfeatures h oldRoot newRoot cs of
             None \<Rightarrow> None
           | Some (Inl e) \<Rightarrow> Some (Inl e)
           | Some (Inr cs') \<Rightarrow> Some (Inr (c' # cs'))))"

text \<open>
  Modelled from the spec: \<^verbatim>\<open>clone\<close> (a virtual member of the concrete Feature kinds)
  is the structural copy: a deep copy of the node, of every descendant and of every owned
  placement expression and value, verbatim, so that the references inside the copy still
  are the old ones. A copy of a value is the value.

  \<^verbatim>\<open>cloneWithoutParentOrExternalPlacements\<close>, called on the rep at \<open>this\<close>; the new
  handle is a free-standing handle of the heap that is empty.
\<close>

definition cloneWithoutParentOrExternalPlacements :: "heap \<Rightarrow> addr \<Rightarrow> nat \<Rightarrow> heap result" where
  "cloneWithoutParentOrExternalPlacements h this newHandle =
     (case getRep h this of
        None \<Rightarrow> Some (Inl (InvalidAccess ''cloneWithoutParentOrExternalPlacements''))
      | Some rep \<Rightarrow>
          (if \<not> (newHandle < length h \<and> h ! newHandle = None)
           then Some (Inl (InvalidAccess ''newHandle''))
           else
             (case reparentMyChildren (newHandle, []) (clearParent rep) of
                Inl e \<Rightarrow> Some (Inl e)
              | Inr copy \<Rightarrow>
                  bindR (fixPlacements (h[newHandle := Some copy]) this (newHandle, []) copy)
                    (\<lambda>copy'. Some (Inr (h[newHandle := Some copy']))))))"

section \<open>Notions used to state the properties of the cloner\<close>

text \<open>
  A property of every node of a subtree, and a transformation of every node of a subtree;
  both are told the child positions that lead to the node, starting from \<open>p\<close>. The
  transformation acts on the members of a node other than its subfeatures.
\<close>

fun all_nodes :: "(nat list \<Rightarrow> feature_rep \<Rightarrow> bool) \<Rightarrow> nat list \<Rightarrow> feature_rep \<Rightarrow> bool"
  and all_nodes_list :: "(nat list \<Rightarrow> feature_rep \<Rightarrow> bool) \<Rightarrow> nat list \<Rightarrow> nat \<Rightarrow> feature_rep list \<Rightarrow> bool" where
  "all_nodes Q p (FeatureRep nm tn rt par idx subs pes pvs pl) =
     (Q p (FeatureRep nm tn rt par idx subs pes pvs pl) \<and> all_nodes_list Q p 0 subs)"
| "all_nodes_list Q p i [] = True"
| "all_nodes_list Q p i (c # cs) = (all_nodes Q (p @ [i]) c \<and> all_nodes_list Q p (Suc i) cs)"

fun map_nodes :: "(nat list \<Rightarrow> feature_rep \<Rightarrow> feature_rep) \<Rightarrow> nat list \<Rightarrow> feature_rep \<Rightarrow> feature_rep"
  and map_nodes_list ::
    "(nat list \<Rightarrow> feature_rep \<Rightarrow> feature_rep) \<Rightarrow> nat list \<Rightarrow> nat \<Rightarrow> feature_rep list \<Rightarrow> feature_rep list" where
  "map_nodes g p (FeatureRep nm tn rt par idx subs pes pvs pl) =
     setSubfeatures (map_nodes_list g p 0 subs) (g p (FeatureRep nm tn rt par idx subs pes pvs pl))"
| "map_nodes_list g p i [] = []"
| "map_nodes_list g p i (c # cs) = map_nodes g (p @ [i]) c # map_nodes_list g p (Suc i) cs"

text \<open>
  Two subtrees have the same shape: the same numbers of subfeatures, all the way down.
\<close>

fun same_shape :: "feature_rep \<Rightarrow> feature_rep \<Rightarrow> bool"
  and same_shape_list :: "feature_rep list \<Rightarrow> feature_rep list \<Rightarrow> bool" where
  "same_shape (FeatureRep nm tn rt par idx subs pes pvs pl) g = same_shape_list subs (subfeatures g)"
| "same_shape_list [] ds = (ds = [])"
| "same_shape_list (c # cs) ds =
     (case ds of [] \<Rightarrow> False | d # ds' \<Rightarrow> same_shape c d \<and> same_shape_list cs ds')"

text \<open>
  The ownership invariant of the specification (section 3): every placement expression
  and every placement value records the Feature that stores it as its owner and its
  position as its index.
\<close>

definition node_owns :: "nat \<Rightarrow> nat list \<Rightarrow> feature_rep \<Rightarrow> bool" where
  "node_owns r p f =
     (list_all (\<lambda>(i, e). owner e = Some (r, p) \<and> indexInOwner e = int i)
        (enumerate 0 (placementExpressions f))
      \<and> list_all (\<lambda>(i, v). valueOwner v = Some (r, p) \<and> valueIndexInOwner v = int i)
          (enumerate 0 (placementValues f)))"

fun roots_own :: "nat \<Rightarrow> heap \<Rightarrow> bool" where
  "roots_own r [] = True"
| "roots_own r (None # hs) = roots_own (Suc r) hs"
| "roots_own r (Some t # hs) = (all_nodes (node_owns r) [] t \<and> roots_own (Suc r) hs)"

definition owners_consistent :: "heap \<Rightarrow> bool" where
  "owners_consistent h = roots_own 0 h"

text \<open>
  The pointers of a node that the cloner dereferences are valid: the active placement and
  the value references of the placement expressions designate a placement and value slots
  of the heap.
\<close>

definition node_pointers_valid :: "heap \<Rightarrow> nat list \<Rightarrow> feature_rep \<Rightarrow> bool" where
  "node_pointers_valid h p f =
     ((case placement f of None \<Rightarrow> True | Some pl \<Rightarrow> getPlacementExpression h pl \<noteq> None)
      \<and> list_all (\<lambda>e. case valueRef e of None \<Rightarrow> True | Some v \<Rightarrow> getPlacementValue h v \<noteq> None)
          (placementExpressions f))"

text \<open>
  Structural correspondence, after the words of the specification (section 4.4): a
  reference to a Feature of the original subtree, rooted at \<open>T\<close>, becomes the reference to
  the node at the same relative position under the new handle \<open>n\<close>, and any other
  reference becomes none. A reference to a placement or to a value slot follows the
  Feature that stores it.
\<close>

definition in_subtree :: "addr \<Rightarrow> addr \<Rightarrow> bool" where
  "in_subtree T a = (fst a = fst T \<and> prefix (snd T) (snd a))"

definition relocate :: "addr \<Rightarrow> nat \<Rightarrow> addr \<Rightarrow> addr" where
  "relocate T n a = (n, drop (length (snd T)) (snd a))"

definition remap_feature :: "heap \<Rightarrow> addr \<Rightarrow> nat \<Rightarrow> addr option \<Rightarrow> addr option" where
  "remap_feature h T n r =
     (case r of
        None \<Rightarrow> None
      | Some f \<Rightarrow> if getRep h f \<noteq> None \<and> in_subtree T f then Some (relocate T n f) else None)"

definition remap_slot :: "addr \<Rightarrow> nat \<Rightarrow> (addr \<times> nat) option \<Rightarrow> (addr \<times> nat) option" where
  "remap_slot T n s =
     (case s of
        None \<Rightarrow> None
      | Some (a, i) \<Rightarrow> if in_subtree T a then Some (relocate T n a, i) else None)"

text \<open>
  The clone that the specification describes, node by node: the node at the relative
  position \<open>rel\<close> of the copy has the new node above it as its parent (none at the root of
  the copy), owns its placement expressions and values, and holds the references of the
  original as remapped by the structural correspondence.
\<close>

definition clone_expression :: "heap \<Rightarrow> addr \<Rightarrow> nat \<Rightarrow> nat list \<Rightarrow> nat \<times> placement_rep \<Rightarrow> placement_rep" where
  "clone_expression h T n rel ie =
     (snd ie)\<lparr>featureRefs := map (remap_feature h T n) (featureRefs (snd ie)),
              valueRef := remap_slot T n (valueRef (snd ie)),
              owner := Some (n, rel), indexInOwner := int (fst ie)\<rparr>"

definition clone_node :: "heap \<Rightarrow> addr \<Rightarrow> nat \<Rightarrow> nat list \<Rightarrow> feature_rep \<Rightarrow> feature_rep" where
  "clone_node h T n rel f =
     FeatureRep (name f) (featureTypeName f) (requiredPlacementType f)
       (if rel = [] then None else Some (n, butlast rel))
       (if rel = [] then - 1 else int (last rel))
       (subfeatures f)
       (map (clone_expression h T n rel) (enumerate 0 (placementExpressions f)))
       (map (\<lambda>(i, v). setValueOwner (n, rel) (int i) v) (enumerate 0 (placementValues f)))
       (remap_slot T n (placement f))"

definition expected_clone :: "heap \<Rightarrow> addr \<Rightarrow> nat \<Rightarrow> feature_rep \<Rightarrow> feature_rep" where
  "expected_clone h T n f = map_nodes (clone_node h T n) [] f"

text \<open>
  No reference of a node resolves outside the tree of the handle \<open>n\<close>: every pointer of
  the node (parent, owners, Feature references, value references, active placement) is
  null or designates something that exists in that tree.
\<close>

definition feature_inside :: "heap \<Rightarrow> nat \<Rightarrow> addr option \<Rightarrow> bool" where
  "feature_inside h n r = (case r of None \<Rightarrow> True | Some a \<Rightarrow> fst a = n \<and> getRep h a \<noteq> None)"

definition node_inside :: "heap \<Rightarrow> nat \<Rightarrow> nat list \<Rightarrow> feature_rep \<Rightarrow> bool" where
  "node_inside h n p f =
     (feature_inside h n (parent f)
      \<and> list_all (\<lambda>e. feature_inside h n (owner e)
                      \<and> list_all (feature_inside h n) (featureRefs e)
                      \<and> (case valueRef e of None \<Rightarrow> True
                          | Some v \<Rightarrow> fst (fst v) = n \<and> getPlacementValue h v \<noteq> None))
          (placementExpressions f)
      \<and> list_all (\<lambda>v. feature_inside h n (valueOwner v)) (placementValues f)
      \<and> (case placement f of None \<Rightarrow> True
          | Some pl \<Rightarrow> fst (fst pl) = n \<and> getPlacementExpression h pl \<noteq> None))"

text \<open>
  The node at the relative position \<open>rel\<close> of the copy after the pass that repairs the
  parents and owners, before the references are repaired.
\<close>

definition reparent_node :: "nat \<Rightarrow> nat list \<Rightarrow> feature_rep \<Rightarrow> feature_rep" where
  "reparent_node n rel f =
     FeatureRep (name f) (featureTypeName f) (requiredPlacementType f)
       (if rel = [] then None else Some (n, butlast rel))
       (if rel = [] then - 1 else int (last rel))
       (subfeatures f)
       (map (\<lambda>(i, e). setOwner (n, rel) (int i) e) (enumerate 0 (placementExpressions f)))
       (map (\<lambda>(i, v). setValueOwner (n, rel) (int i) v) (enumerate 0 (placementValues f)))
       (placement f)"

text \<open>
  The situation in which a subtree is cloned: the heap satisfies the invariants of the
  specification, the original \<open>T\<close> has the rep \<open>rep\<close>, the pointers that the subtree holds
  are valid, and the new handle \<open>n\<close> is an empty free-standing handle.
\<close>

definition clone_setting :: "heap \<Rightarrow> addr \<Rightarrow> nat \<Rightarrow> feature_rep \<Rightarrow> bool" where
  "clone_setting h T n rep =
     (parents_consistent h \<and> owners_consistent h \<and> getRep h T = Some rep
      \<and> all_nodes (node_pointers_valid h) [] rep \<and> n < length h \<and> h ! n = None)"

definition reparented_heap :: "heap \<Rightarrow> nat \<Rightarrow> feature_rep \<Rightarrow> heap" where
  "reparented_heap h n rep = h[n := Some (map_nodes (reparent_node n) [] rep)]"

text \<open>
  An example with placements: the heap that three calls of \<^verbatim>\<open>place\<close> make of
  \<open>example_heap\<close>. \<open>X\<close> is placed on a constant, which \<open>A\<close> owns; \<open>Z\<close> is placed on a
  reference to \<open>B\<close> and \<open>A\<close> on a reference to \<open>Z\<close>, and \<open>Root\<close> owns both expressions.
\<close>

definition placed_A :: feature_rep where
  "placed_A =
     FeatureRep ''A'' ''Frame'' FramePlacementType (Some (0, [])) 0
       [FeatureRep ''X'' ''RealParameter'' RealPlacementType (Some (0, [0])) 0 [] [] []
          (Some ((0, [0]), 0)),
        FeatureRep ''Z'' ''Station'' StationPlacementType (Some (0, [0])) 1 [] [] []
          (Some ((0, []), 0))]
       [\<lparr>placementType = RealPlacementType, featureRefs = [], valueRef = None,
          owner = Some (0, [0]), indexInOwner = 0\<rparr>]
       [] (Some ((0, []), 1))"

definition placed_Root :: feature_rep where
  "placed_Root =
     FeatureRep ''Root'' ''Frame'' FramePlacementType None (- 1)
       [placed_A,
        FeatureRep ''B'' ''Frame'' FramePlacementType (Some (0, [])) 1
          [leaf ''Y'' (0, [1]) 0] [] [] None]
       [\<lparr>placementType = StationPlacementType, featureRefs = [Some (0, [1])],
          valueRef = None, owner = Some (0, []), indexInOwner = 0\<rparr>,
        \<lparr>placementType = FramePlacementType, featureRefs = [Some (0, [0, 1])],
          valueRef = None, owner = Some (0, []), indexInOwner = 1\<rparr>]
       [] None"

definition placed_heap :: heap where
  "placed_heap = [Some placed_Root, None]"

text \<open>
  The copy of \<open>A\<close> that the cloner makes in \<open>placed_heap\<close> under the handle 1.
\<close>

definition cloned_A :: feature_rep where
  "cloned_A =
     FeatureRep ''A'' ''Frame'' FramePlacementType None (- 1)
       [FeatureRep ''X'' ''RealParameter'' RealPlacementType (Some (1, [])) 0 [] [] []
          (Some ((1, []), 0)),
        FeatureRep ''Z'' ''Station'' StationPlacementType (Some (1, [])) 1 [] [] [] None]
       [\<lparr>placementType = RealPlacementType, featureRefs = [], valueRef = None,
          owner = Some (1, []), indexInOwner = 0\<rparr>]
       [] None"

definition cloned_heap :: heap where
  "cloned_heap = [Some placed_Root, Some cloned_A]"

section \<open>Properties of name and path validation\<close>

lemma name_loop_iff: "name_loop n \<longleftrightarrow> (\<forall>c\<in>set n. isalnum c \<or> c = CHR ''_'')"
  by (induction n) auto

lemma isLegalFeatureName_iff:
  "isLegalFeatureName n \<longleftrightarrow> n \<noteq> [] \<and> (\<forall>c\<in>set n. isalnum c \<or> c = CHR ''_'')"
  by (simp add: isLegalFeatureName_def name_loop_iff)

lemma legal_no_slash: "isLegalFeatureName n \<Longrightarrow> CHR ''/'' \<notin> set n"
  by (auto simp: isLegalFeatureName_iff isalnum_def Let_def)

lemma seg_loop_eq:
  "seg_loop p n t = (t @ takeWhile ne (drop n p), n + length (takeWhile ne (drop n p)))"
proof (induction p n t rule: seg_loop.induct)
  case (1 p n t)
  show ?case
  proof (cases "n < length p \<and> p ! n \<noteq> CHR ''/''")
    case True
    then have d: "drop n p = p ! n # drop (Suc n) p"
      by (simp add: Cons_nth_drop_Suc)
    from True "1" show ?thesis
      by (subst seg_loop.simps) (simp add: d)
  next
    case False
    show ?thesis
    proof (cases "n < length p")
      case True
      with False have e: "p ! n = CHR ''/''" by simp
      with True have d: "drop n p = CHR ''/'' # drop (Suc n) p"
        by (metis Cons_nth_drop_Suc)
      have "seg_loop p n t = (t, n)"
        by (subst seg_loop.simps) (simp add: e)
      then show ?thesis
        by (simp add: d)
    next
      case False
      then show ?thesis
        by (subst seg_loop.simps) simp
    qed
  qed
qed

lemma split_slash_unfold:
  "split_slash s = takeWhile ne s # (case dropWhile ne s of [] \<Rightarrow> [] | c # r \<Rightarrow> split_slash r)"
  by (induction s) (auto split: list.splits)

lemma split_slash_ne [simp]: "split_slash s \<noteq> []"
  by (subst split_slash_unfold) simp

lemma drop_after_seg:
  "drop (Suc (n + length (takeWhile ne (drop n p)))) p = tl (dropWhile ne (drop n p))"
proof -
  have "drop (Suc (n + length (takeWhile ne (drop n p)))) p
      = tl (drop (length (takeWhile ne (drop n p))) (drop n p))"
    by (simp add: drop_Suc tl_drop add.commute)
  also have "drop (length (takeWhile ne (drop n p))) (drop n p) = dropWhile ne (drop n p)"
    by (simp add: dropWhile_eq_drop)
  finally show ?thesis .
qed

lemma path_loop_step:
  "n < length p \<Longrightarrow>
   path_loop p n segs found =
     (let t = takeWhile ne (drop n p); segs' = map_option (\<lambda>s. s @ [t]) segs
      in if \<not> isLegalFeatureName t then (False, segs')
         else path_loop p (Suc (n + length t)) segs' True)"
  by (subst path_loop.simps) (simp add: seg_loop_eq Let_def)

lemma path_loop_done: "\<not> n < length p \<Longrightarrow> path_loop p n segs found = (found, segs)"
  by (subst path_loop.simps) simp

lemma path_loop_char:
  "path_loop p n (Some segs) found = (b, out) \<Longrightarrow>
   \<exists>new. out = Some (segs @ new) \<and> prefix new (split_slash (drop n p))
     \<and> (b \<longleftrightarrow> (found \<or> new \<noteq> []) \<and> (\<forall>s\<in>set new. isLegalFeatureName s))
     \<and> (b \<longrightarrow> new = split_slash (drop n p) \<or> new @ [[]] = split_slash (drop n p))
     \<and> (\<not> b \<and> new \<noteq> [] \<longrightarrow>
            \<not> isLegalFeatureName (last new) \<and> (\<forall>s\<in>set (butlast new). isLegalFeatureName s))
     \<and> (new = [] \<longrightarrow> length p \<le> n \<and> b = found)"
proof (induction "length p - n" arbitrary: n segs found b out rule: less_induct)
  case less
  show ?case
  proof (cases "n < length p")
    case False
    with less.prems have "b = found" "out = Some segs"
      by (simp_all add: path_loop_done)
    moreover from False have "split_slash (drop n p) = [[]]"
      by simp
    ultimately show ?thesis
      using False by simp
  next
    case True
    define t where "t = takeWhile ne (drop n p)"
    define r where "r = dropWhile ne (drop n p)"
    have sp: "split_slash (drop n p) = t # (case r of [] \<Rightarrow> [] | c # r' \<Rightarrow> split_slash r')"
      unfolding t_def r_def by (rule split_slash_unfold)
    show ?thesis
    proof (cases "isLegalFeatureName t")
      case False
      with True less.prems have "b = False" "out = Some (segs @ [t])"
        by (simp_all add: path_loop_step t_def Let_def)
      with False sp show ?thesis
        by simp
    next
      case legal: True
      let ?n' = "Suc (n + length t)"
      from True legal less.prems
      have rec: "path_loop p ?n' (Some (segs @ [t])) True = (b, out)"
        by (simp add: path_loop_step t_def Let_def)
      have dr: "drop ?n' p = tl r"
        unfolding t_def r_def by (rule drop_after_seg)
      from True have "length p - ?n' < length p - n"
        by simp
      from less.hyps [OF this rec] obtain new where
        n1: "out = Some ((segs @ [t]) @ new)" and
        n2: "prefix new (split_slash (drop ?n' p))" and
        n3: "b \<longleftrightarrow> (True \<or> new \<noteq> []) \<and> (\<forall>s\<in>set new. isLegalFeatureName s)" and
        n4: "b \<longrightarrow> new = split_slash (drop ?n' p) \<or> new @ [[]] = split_slash (drop ?n' p)" and
        n5: "\<not> b \<and> new \<noteq> [] \<longrightarrow>
            \<not> isLegalFeatureName (last new) \<and> (\<forall>s\<in>set (butlast new). isLegalFeatureName s)" and
        n6: "new = [] \<longrightarrow> length p \<le> ?n' \<and> b = True"
        by blast
      show ?thesis
      proof (cases r)
        case Nil
        from Nil have lt: "n + length t = length p"
        proof -
          have "takeWhile ne (drop n p) @ dropWhile ne (drop n p) = drop n p"
            by simp
          with Nil have "t = drop n p" by (simp add: t_def r_def)
          with True show ?thesis by simp
        qed
        from lt have fin: "path_loop p ?n' (Some (segs @ [t])) True = (True, Some (segs @ [t]))"
          by (simp add: path_loop_done)
        with rec have "b = True" "out = Some (segs @ [t])" by simp_all
        with Nil sp legal show ?thesis by simp
      next
        case (Cons c r')
        with dr have dr': "drop ?n' p = r'" by simp
        from Cons sp have sp': "split_slash (drop n p) = t # split_slash r'"
          by simp
        have "out = Some (segs @ (t # new))"
          using n1 by simp
        moreover have "prefix (t # new) (split_slash (drop n p))"
          using n2 dr' sp' by simp
        moreover have "b \<longleftrightarrow> (found \<or> t # new \<noteq> []) \<and> (\<forall>s\<in>set (t # new). isLegalFeatureName s)"
          using n3 legal by simp
        moreover have "b \<longrightarrow> t # new = split_slash (drop n p) \<or> (t # new) @ [[]] = split_slash (drop n p)"
          using n4 dr' sp' by simp
        moreover have "\<not> b \<and> t # new \<noteq> [] \<longrightarrow>
            \<not> isLegalFeatureName (last (t # new)) \<and> (\<forall>s\<in>set (butlast (t # new)). isLegalFeatureName s)"
          using n5 n6 legal by auto
        ultimately show ?thesis
          by blast
      qed
    qed
  qed
qed

lemma path_loop_None: "fst (path_loop p n None found) = fst (path_loop p n (Some segs) found)"
proof (induction "length p - n" arbitrary: n segs found rule: less_induct)
  case less
  show ?case
  proof (cases "n < length p")
    case False
    then show ?thesis by (simp add: path_loop_done)
  next
    case True
    let ?t = "takeWhile ne (drop n p)"
    from True have "length p - Suc (n + length ?t) < length p - n"
      by simp
    from less [OF this]
    have "fst (path_loop p (Suc (n + length ?t)) None True)
        = fst (path_loop p (Suc (n + length ?t)) (Some (segs @ [?t])) True)" .
    with True show ?thesis
      by (simp add: path_loop_step Let_def)
  qed
qed

lemma takeWhile_slash_append:
  "takeWhile ne (xs @ CHR ''/'' # w) = takeWhile ne xs"
  by (induction xs) auto

lemma path_loop_legal_prefix:
  "n < length u \<Longrightarrow> last u \<noteq> CHR ''/'' \<Longrightarrow>
   path_loop u n (Some segs) found = (True, Some out) \<Longrightarrow>
   path_loop (u @ CHR ''/'' # w) n (Some segs) found
     = path_loop (u @ CHR ''/'' # w) (Suc (length u)) (Some out) True"
proof (induction "length u - n" arbitrary: n segs found rule: less_induct)
  case less
  let ?p = "u @ CHR ''/'' # w"
  define t where "t = takeWhile ne (drop n u)"
  from less.prems(1) have t': "takeWhile ne (drop n ?p) = t"
    by (simp add: t_def takeWhile_slash_append)
  from less.prems(1) have np: "n < length ?p" by simp
  have legal: "isLegalFeatureName t"
  proof (rule ccontr)
    assume "\<not> isLegalFeatureName t"
    with less.prems(1) have "fst (path_loop u n (Some segs) found) = False"
      by (simp add: path_loop_step t_def Let_def)
    with less.prems(3) show False by simp
  qed
  let ?n' = "Suc (n + length t)"
  from less.prems(1,3) legal
  have rec: "path_loop u ?n' (Some (segs @ [t])) True = (True, Some out)"
    by (simp add: path_loop_step t_def Let_def)
  from np legal t'
  have step: "path_loop ?p n (Some segs) found = path_loop ?p ?n' (Some (segs @ [t])) True"
    by (simp add: path_loop_step Let_def)
  have le: "n + length t \<le> length u"
    using length_takeWhile_le [of ne "drop n u"] less.prems(1) by (simp add: t_def)
  have neq: "n + length t \<noteq> length u - 1"
  proof
    assume e: "n + length t = length u - 1"
    with less.prems(1) have lt: "n + length t < length u" by simp
    have "drop (length t) (drop n u) = dropWhile ne (drop n u)"
      by (simp add: t_def dropWhile_eq_drop)
    moreover from lt have "drop (length t) (drop n u) \<noteq> []" by simp
    ultimately have "dropWhile ne (drop n u) \<noteq> []" by simp
    then have "\<not> ne (hd (dropWhile ne (drop n u)))"
      by (rule hd_dropWhile)
    then have "hd (drop (n + length t) u) = CHR ''/''"
      using \<open>drop (length t) (drop n u) = dropWhile ne (drop n u)\<close>
      by (simp add: add.commute)
    with lt have "u ! (n + length t) = CHR ''/''"
      by (simp add: hd_drop_conv_nth)
    moreover from less.prems(1) have "u \<noteq> []" by auto
    ultimately have "last u = CHR ''/''"
      using e by (simp add: last_conv_nth)
    with less.prems(2) show False by simp
  qed
  show ?case
  proof (cases "n + length t = length u")
    case True
    with rec have "out = segs @ [t]"
      by (simp add: path_loop_done)
    with step True show ?thesis by simp
  next
    case False
    with le neq have lt: "?n' < length u" by simp
    with less.prems(1) have "length u - ?n' < length u - n" by simp
    from less.hyps [OF this lt less.prems(2) rec] step show ?thesis
      by simp
  qed
qed

lemma path_loop_double_slash:
  "n \<le> length u \<Longrightarrow> fst (path_loop (u @ CHR ''/'' # CHR ''/'' # v) n sg found) = False"
proof (induction "length u - n" arbitrary: n sg found rule: less_induct)
  case less
  let ?p = "u @ CHR ''/'' # CHR ''/'' # v"
  define t where "t = takeWhile ne (drop n u)"
  from less.prems have t': "takeWhile ne (drop n ?p) = t"
    by (simp add: t_def takeWhile_slash_append)
  from less.prems have np: "n < length ?p" by simp
  let ?n' = "Suc (n + length t)"
  have le: "n + length t \<le> length u"
    using length_takeWhile_le [of ne "drop n u"] less.prems by (simp add: t_def)
  show ?case
  proof (cases "isLegalFeatureName t")
    case False
    with np t' show ?thesis by (simp add: path_loop_step Let_def)
  next
    case True
    with np t'
    have step: "path_loop ?p n sg found = path_loop ?p ?n' (map_option (\<lambda>s. s @ [t]) sg) True"
      by (simp add: path_loop_step Let_def)
    show ?thesis
    proof (cases "n + length t = length u")
      case e: True
      have "?n' < length ?p" using e by simp
      moreover have "drop ?n' ?p = CHR ''/'' # v" using e by simp
      ultimately have "fst (path_loop ?p ?n' (map_option (\<lambda>s. s @ [t]) sg) True) = False"
        by (simp add: path_loop_step Let_def isLegalFeatureName_def)
      with step show ?thesis by simp
    next
      case False
      with le have lt: "?n' \<le> length u" by simp
      from True have "t \<noteq> []" by (auto simp: isLegalFeatureName_def)
      with lt less.prems have "length u - ?n' < length u - n" by simp
      from less.hyps [OF this lt] step show ?thesis by simp
    qed
  qed
qed

lemma ex1: "isLegalFeaturePathname ''a/b_2/C'' (Some old) = (True, Some [''a'', ''b_2'', ''C''])"
  by code_simp

lemma ex2: "isLegalFeaturePathname ''a//b'' (Some old) = (False, Some [''a'', ''''])"
  by code_simp

text \<open>
  Claim C9. \<^verbatim>\<open>isLegalFeaturePathname\<close> splits the path on \<open>/\<close>: the captured
  segments are the leading pieces of the split, and on success all of them (but for the
  empty piece after a final slash). Every captured segment is validated with
  \<^verbatim>\<open>isLegalFeatureName\<close> (non-empty, every character alphanumeric or underscore);
  the result is true exactly when at least one segment was captured and all of them are
  legal. On failure with a captured segment the last captured segment is the offending
  one and the ones before it are legal; no segment is captured only for the empty path.
  The returned boolean does not depend on whether segments are requested.
  \<open>a/b_2/C\<close> is legal with segments \<open>a\<close>, \<open>b_2\<close>, \<open>C\<close>; \<open>a//b\<close> is illegal with
  the empty segment as the offending one.
\<close>

theorem isLegalFeaturePathname_spec:
  "\<exists>segs. isLegalFeaturePathname path (Some old)
            = (fst (isLegalFeaturePathname path None), Some segs)
     \<and> snd (isLegalFeaturePathname path None) = None
     \<and> prefix segs (split_slash path)
     \<and> (fst (isLegalFeaturePathname path None)
            \<longleftrightarrow> segs \<noteq> [] \<and> (\<forall>s\<in>set segs. isLegalFeatureName s))
     \<and> (fst (isLegalFeaturePathname path None)
            \<longrightarrow> segs = split_slash path \<or> segs @ [[]] = split_slash path)
     \<and> (\<not> fst (isLegalFeaturePathname path None) \<and> segs \<noteq> []
            \<longrightarrow> \<not> isLegalFeatureName (last segs)
                \<and> (\<forall>s\<in>set (butlast segs). isLegalFeatureName s))
     \<and> (segs = [] \<longrightarrow> path = [])
     \<and> (isLegalFeatureName n \<longleftrightarrow> n \<noteq> [] \<and> (\<forall>c\<in>set n. isalnum c \<or> c = CHR ''_''))
     \<and> isLegalFeaturePathname ''a/b_2/C'' (Some old) = (True, Some [''a'', ''b_2'', ''C''])
     \<and> isLegalFeaturePathname ''a//b'' (Some old) = (False, Some [''a'', ''''])"
proof -
  obtain b out where r: "path_loop path 0 (Some []) False = (b, out)"
    by (cases "path_loop path 0 (Some []) False")
  from path_loop_char [OF r] obtain new where
    c: "out = Some ([] @ new) \<and> prefix new (split_slash (drop 0 path))
     \<and> (b \<longleftrightarrow> (False \<or> new \<noteq> []) \<and> (\<forall>s\<in>set new. isLegalFeatureName s))
     \<and> (b \<longrightarrow> new = split_slash (drop 0 path) \<or> new @ [[]] = split_slash (drop 0 path))
     \<and> (\<not> b \<and> new \<noteq> [] \<longrightarrow>
            \<not> isLegalFeatureName (last new) \<and> (\<forall>s\<in>set (butlast new). isLegalFeatureName s))
     \<and> (new = [] \<longrightarrow> length path \<le> 0 \<and> b = False)"
    by (rule exE)
  from c have n1: "out = Some new"
    by simp
  from c have n2: "prefix new (split_slash path)"
    by simp
  from c have n3: "b \<longleftrightarrow> new \<noteq> [] \<and> (\<forall>s\<in>set new. isLegalFeatureName s)"
    by blast
  from c [unfolded drop_0]
  have n4: "b \<longrightarrow> new = split_slash path \<or> new @ [[]] = split_slash path"
    by blast
  from c have n5: "\<not> b \<and> new \<noteq> [] \<longrightarrow>
            \<not> isLegalFeatureName (last new) \<and> (\<forall>s\<in>set (butlast new). isLegalFeatureName s)"
    by blast
  from c have n6: "new = [] \<longrightarrow> length path \<le> 0 \<and> b = False"
    by simp
  have f: "fst (isLegalFeaturePathname path None) = b"
    using path_loop_None [of path 0 False "[]"] r
    by (simp add: isLegalFeaturePathname_def)
  have g: "isLegalFeaturePathname path (Some old) = (b, Some new)"
    using r n1 by (simp add: isLegalFeaturePathname_def)
  have h: "snd (path_loop p k None found) = None" for p k found
  proof (induction "length p - k" arbitrary: k found rule: less_induct)
    case less
    show ?case
    proof (cases "k < length p")
      case False
      then show ?thesis by (simp add: path_loop_done)
    next
      case True
      then have "length p - Suc (k + length (takeWhile ne (drop k p))) < length p - k"
        by simp
      from less [OF this] True show ?thesis
        by (simp add: path_loop_step Let_def)
    qed
  qed
  have h': "snd (isLegalFeaturePathname path None) = None"
    by (simp add: isLegalFeaturePathname_def h)
  show ?thesis
  proof (intro exI [of _ new] conjI)
    show "isLegalFeaturePathname path (Some old)
        = (fst (isLegalFeaturePathname path None), Some new)"
      using f g by simp
    show "snd (isLegalFeaturePathname path None) = None"
      by (rule h')
    show "prefix new (split_slash path)"
      by (rule n2)
    show "fst (isLegalFeaturePathname path None)
        \<longleftrightarrow> new \<noteq> [] \<and> (\<forall>s\<in>set new. isLegalFeatureName s)"
      using f n3 by simp
    show "fst (isLegalFeaturePathname path None)
        \<longrightarrow> new = split_slash path \<or> new @ [[]] = split_slash path"
      using f n4 by simp
    show "\<not> fst (isLegalFeaturePathname path None) \<and> new \<noteq> []
        \<longrightarrow> \<not> isLegalFeatureName (last new)
            \<and> (\<forall>s\<in>set (butlast new). isLegalFeatureName s)"
      using f n5 by simp
    show "new = [] \<longrightarrow> path = []"
      using n6 by simp
    show "isLegalFeatureName n \<longleftrightarrow> n \<noteq> [] \<and> (\<forall>c\<in>set n. isalnum c \<or> c = CHR ''_'')"
      by (rule isLegalFeatureName_iff)
    show "isLegalFeaturePathname ''a/b_2/C'' (Some old) = (True, Some [''a'', ''b_2'', ''C''])"
      by (rule ex1)
    show "isLegalFeaturePathname ''a//b'' (Some old) = (False, Some [''a'', []])"
      by (rule ex2)
  qed
qed

theorem isLegalFeaturePathname_spec_witness:
  "\<exists>segs. isLegalFeaturePathname ''a//b'' (Some [''junk''])
            = (fst (isLegalFeaturePathname ''a//b'' None), Some segs)
     \<and> \<not> fst (isLegalFeaturePathname ''a//b'' None) \<and> segs \<noteq> []
     \<and> \<not> isLegalFeatureName (last segs)
     \<and> (\<forall>s\<in>set (butlast segs). isLegalFeatureName s)
     \<and> prefix segs (split_slash ''a//b'')"
proof -
  have a: "fst (isLegalFeaturePathname ''a//b'' None) = False"
    by code_simp
  have b: "isLegalFeaturePathname ''a//b'' (Some [''junk'']) = (False, Some [''a'', ''''])"
    by code_simp
  from isLegalFeaturePathname_spec [of "''a//b''" "[''junk'']" "''a''"] a b
  show ?thesis
    by auto
qed

text \<open>
  Claim C10. If \<open>s\<close> does not end in a slash and is a legal path with segments
  \<open>segs\<close>, then \<open>s\<close> followed by a single slash is legal with the same segments: the
  trailing slash is skipped without capturing an empty segment. A doubled slash always
  makes the path illegal, and after a legal \<open>s\<close> it is the empty segment that is
  captured as the offending one.
\<close>

theorem trailing_slash_ignored:
  "((s = [] \<or> last s \<noteq> CHR ''/'')
      \<and> isLegalFeaturePathname s (Some old) = (True, Some segs)
    \<longrightarrow> isLegalFeaturePathname (s @ ''/'') (Some old') = (True, Some segs)
        \<and> fst (isLegalFeaturePathname (s @ ''/'') None)
        \<and> isLegalFeaturePathname (s @ ''//'' @ v) (Some old') = (False, Some (segs @ ['''']))
        \<and> \<not> isLegalFeatureName '''')
   \<and> \<not> fst (isLegalFeaturePathname (u @ ''//'' @ v) sg)"
proof -
  have d: "\<not> fst (isLegalFeaturePathname (u @ ''//'' @ v) sg)"
    using path_loop_double_slash [of 0 u v "map_option (\<lambda>s. []) sg" False]
    by (simp add: isLegalFeaturePathname_def)
  have m: "isLegalFeaturePathname (s @ ''/'') (Some old') = (True, Some segs)
        \<and> fst (isLegalFeaturePathname (s @ ''/'') None)
        \<and> isLegalFeaturePathname (s @ ''//'' @ v) (Some old') = (False, Some (segs @ ['''']))
        \<and> \<not> isLegalFeatureName ''''"
    if a: "s = [] \<or> last s \<noteq> CHR ''/''"
      and b: "isLegalFeaturePathname s (Some old) = (True, Some segs)"
  proof -
    from b have r: "path_loop s 0 (Some []) False = (True, Some segs)"
      by (simp add: isLegalFeaturePathname_def)
    have ne: "s \<noteq> []"
    proof
      assume "s = []"
      with r show False by (simp add: path_loop_done)
    qed
    with a have l: "last s \<noteq> CHR ''/''" by simp
    from ne have z: "0 < length s" by simp
    have p1: "path_loop (s @ CHR ''/'' # w) 0 (Some []) False
        = path_loop (s @ CHR ''/'' # w) (Suc (length s)) (Some segs) True" for w
      by (rule path_loop_legal_prefix [OF z l r])
    have c1: "isLegalFeaturePathname (s @ ''/'') (Some old') = (True, Some segs)"
      using p1 [of "[]"] by (simp add: isLegalFeaturePathname_def path_loop_done)
    have c2: "fst (isLegalFeaturePathname (s @ ''/'') None)"
      using path_loop_None [of "s @ ''/''" 0 False "[]"] c1
      by (simp add: isLegalFeaturePathname_def)
    have "path_loop (s @ CHR ''/'' # CHR ''/'' # v) (Suc (length s)) (Some segs) True
        = (False, Some (segs @ ['''']))"
      by (simp add: path_loop_step Let_def isLegalFeatureName_def)
    with p1 [of "CHR ''/'' # v"]
    have c3: "isLegalFeaturePathname (s @ ''//'' @ v) (Some old') = (False, Some (segs @ ['''']))"
      by (simp add: isLegalFeaturePathname_def)
    show ?thesis
      using c1 c2 c3 by (simp add: isLegalFeatureName_def)
  qed
  from d m show ?thesis
    by blast
qed

theorem trailing_slash_ignored_witness:
  "(''a/b'' = [] \<or> last ''a/b'' \<noteq> CHR ''/'')
   \<and> isLegalFeaturePathname ''a/b'' (Some []) = (True, Some [''a'', ''b''])
   \<and> isLegalFeaturePathname (''a/b'' @ ''/'') (Some [''x'']) = (True, Some [''a'', ''b''])
   \<and> isLegalFeaturePathname (''a/b'' @ ''//'' @ ''c'') (Some [''x''])
        = (False, Some ([''a'', ''b''] @ ['''']))"
proof -
  have a: "''a/b'' = [] \<or> last ''a/b'' \<noteq> CHR ''/''"
    by simp
  have b: "isLegalFeaturePathname ''a/b'' (Some []) = (True, Some [''a'', ''b''])"
    by code_simp
  from trailing_slash_ignored [of "''a/b''" "[]" "[''a'', ''b'']" "[''x'']" "''c''" "[]" None] a b
  show ?thesis
    by blast
qed
section \<open>Properties of the navigator\<close>

subsection \<open>isFeatureInFeatureTree\<close>

lemmas isInTree_loop_induct = isInTree_loop.raw_induct [rotated -1, consumes 1, case_names step]
lemmas path_loop_up_induct = path_loop_up.raw_induct [rotated -1, consumes 1, case_names step]
lemmas findRootFeature_induct = findRootFeature.raw_induct [rotated -1, consumes 1, case_names step]

lemma isInTree_loop_root: "isInTree_loop h root root trace = Some (True, trace)"
  by (subst isInTree_loop.simps) simp

lemma isInTree_loop_step:
  "fp \<noteq> oldp \<Longrightarrow> getRep h fp = Some rep \<Longrightarrow> parent rep = Some p \<Longrightarrow>
   isInTree_loop h oldp fp trace
     = isInTree_loop h oldp p (map_option (\<lambda>t. t @ [indexInParent rep]) trace)"
  by (subst isInTree_loop.simps) simp

lemma isInTree_loop_stop:
  "fp \<noteq> oldp \<Longrightarrow> getParentPtr h fp = None \<Longrightarrow>
   isInTree_loop h oldp fp trace = Some (False, map_option (\<lambda>t. []) trace)"
  by (subst isInTree_loop.simps) (simp add: getParentPtr_def split: option.splits)

lemma getParentPtr_Some:
  "getParentPtr h f = Some p \<longleftrightarrow> (\<exists>rep. getRep h f = Some rep \<and> parent rep = Some p)"
  by (simp add: getParentPtr_def split: option.splits)

lemma reaches_isInTree: "reaches h f root \<Longrightarrow> \<exists>tr. isInTree_loop h root f trace = Some (True, tr)"
proof (induction arbitrary: trace rule: reaches.induct)
  case (reaches_self f)
  show ?case by (simp add: isInTree_loop_root)
next
  case (reaches_step f p root)
  show ?case
  proof (cases "f = root")
    case True
    then show ?thesis by (simp add: isInTree_loop_root)
  next
    case False
    from reaches_step.hyps(1) obtain rep where r: "getRep h f = Some rep" "parent rep = Some p"
      by (auto simp: getParentPtr_Some)
    from reaches_step.IH [of "map_option (\<lambda>t. t @ [indexInParent rep]) trace"]
    show ?thesis
      by (simp add: isInTree_loop_step [OF False r])
  qed
qed

lemma isInTree_reaches:
  "isInTree_loop h root f trace = Some y \<Longrightarrow> fst y \<Longrightarrow> reaches h f root"
proof (induction h root f trace y rule: isInTree_loop_induct)
  case (step loop h oldp fp trace y)
  show ?case
  proof (cases "fp = oldp")
    case True
    then show ?thesis by (simp add: reaches_self)
  next
    case False
    show ?thesis
    proof (cases "getRep h fp")
      case None
      with False step.hyps step.prems show ?thesis by auto
    next
      case (Some rep)
      show ?thesis
      proof (cases "parent rep")
        case None
        with False Some step.hyps step.prems show ?thesis by auto
      next
        case (Some p)
        with False \<open>getRep h fp = Some rep\<close> step.hyps
        have "loop h oldp p (map_option (\<lambda>t. t @ [indexInParent rep]) trace) = Some y"
          by simp
        from step.IH [OF this step.prems] have "reaches h p oldp" .
        moreover have "getParentPtr h fp = Some p"
          using Some \<open>getRep h fp = Some rep\<close> by (simp add: getParentPtr_def)
        ultimately show ?thesis
          by (rule reaches_step [rotated])
      qed
    qed
  qed
qed

lemma isInTree_iff_reaches:
  "(\<exists>tr. isInTree_loop h root f trace = Some (True, tr)) \<longleftrightarrow> reaches h f root"
proof
  assume "\<exists>tr. isInTree_loop h root f trace = Some (True, tr)"
  then obtain tr where "isInTree_loop h root f trace = Some (True, tr)" ..
  from isInTree_reaches [OF this] show "reaches h f root" by simp
next
  assume "reaches h f root"
  then show "\<exists>tr. isInTree_loop h root f trace = Some (True, tr)"
    by (rule reaches_isInTree)
qed

lemma path_up_isInTree_terminates:
  "path_loop_up h fp acc = Some chain \<Longrightarrow> fp = Some a \<Longrightarrow>
   \<exists>r. isInTree_loop h root a trace = Some r"
proof (induction h fp acc chain arbitrary: a trace rule: path_loop_up_induct)
  case (step up h fp acc chain)
  from step.hyps step.prems
  have rec: "up h (getParentPtr h a) (acc @ [a]) = Some chain"
    by simp
  show ?case
  proof (cases "a = root")
    case True
    then show ?thesis by (auto simp: isInTree_loop_root)
  next
    case False
    show ?thesis
    proof (cases "getParentPtr h a")
      case None
      with False show ?thesis by (auto simp: isInTree_loop_stop)
    next
      case (Some p)
      then obtain rep where r: "getRep h a = Some rep" "parent rep = Some p"
        by (auto simp: getParentPtr_Some)
      from step.IH [OF rec Some, of "map_option (\<lambda>t. t @ [indexInParent rep]) trace"]
      show ?thesis
        by (simp add: isInTree_loop_step [OF False r])
    qed
  qed
qed

subsection \<open>Addresses and the ownership structure\<close>

lemma subfeature_at_append:
  "subfeature_at f (q @ p) = (case subfeature_at f q of None \<Rightarrow> None | Some g \<Rightarrow> subfeature_at g p)"
  by (induction q arbitrary: f) auto

lemma getRep_append:
  "getRep h (r, q @ p) = (case getRep h (r, q) of None \<Rightarrow> None | Some g \<Rightarrow> subfeature_at g p)"
  by (auto simp: getRep_def subfeature_at_append split: option.splits)

lemma getRep_child:
  "getRep h (r, q @ [i]) = Some c \<longleftrightarrow>
   (\<exists>g. getRep h (r, q) = Some g \<and> i < length (subfeatures g) \<and> c = subfeatures g ! i)"
  by (auto simp: getRep_append split: option.splits)

lemma parents_ok_list_nth:
  "parents_ok_list a k cs \<Longrightarrow> i < length cs \<Longrightarrow>
   parent (cs ! i) = Some a \<and> indexInParent (cs ! i) = int (k + i)
   \<and> parents_ok (fst a, snd a @ [k + i]) (cs ! i)"
proof (induction cs arbitrary: k i)
  case Nil
  then show ?case by simp
next
  case (Cons c cs)
  show ?case
  proof (cases i)
    case 0
    with Cons.prems show ?thesis by simp
  next
    case (Suc j)
    with Cons.prems have "parents_ok_list a (Suc k) cs" "j < length cs" by simp_all
    from Cons.IH [OF this] Suc show ?thesis by simp
  qed
qed

lemma parents_ok_child:
  "parents_ok a f \<Longrightarrow> i < length (subfeatures f) \<Longrightarrow>
   parent (subfeatures f ! i) = Some a \<and> indexInParent (subfeatures f ! i) = int i
   \<and> parents_ok (fst a, snd a @ [i]) (subfeatures f ! i)"
  using parents_ok_list_nth [of a 0 "subfeatures f" i] by (cases f) simp

lemma parents_ok_sub:
  "parents_ok a f \<Longrightarrow> subfeature_at f p = Some g \<Longrightarrow> parents_ok (fst a, snd a @ p) g"
proof (induction p arbitrary: a f)
  case Nil
  then show ?case by simp
next
  case (Cons i p)
  from Cons.prems(2) have i: "i < length (subfeatures f)"
    and s: "subfeature_at (subfeatures f ! i) p = Some g"
    by (simp_all split: if_splits)
  from parents_ok_child [OF Cons.prems(1) i]
  have "parents_ok (fst a, snd a @ [i]) (subfeatures f ! i)" by simp
  from Cons.IH [OF this s] show ?case by simp
qed

lemma roots_ok_nth:
  "roots_ok k hs \<Longrightarrow> i < length hs \<Longrightarrow> hs ! i = Some t \<Longrightarrow>
   parent t = None \<and> parents_ok (k + i, []) t"
proof (induction k hs arbitrary: i rule: roots_ok.induct)
  case (1 r)
  then show ?case by simp
next
  case (2 r hs)
  then show ?case by (cases i) auto
next
  case (3 r t' hs)
  then show ?case by (cases i) auto
qed

lemma consistent_root:
  "parents_consistent h \<Longrightarrow> getRep h (r, []) = Some t \<Longrightarrow> parent t = None \<and> parents_ok (r, []) t"
  using roots_ok_nth [of 0 h r t]
  by (auto simp: parents_consistent_def getRep_def split: if_splits option.splits)

lemma consistent_node:
  "parents_consistent h \<Longrightarrow> getRep h (r, p) = Some g \<Longrightarrow> parents_ok (r, p) g"
proof -
  assume c: "parents_consistent h" and g: "getRep h (r, p) = Some g"
  from g obtain t where t: "getRep h (r, []) = Some t" and s: "subfeature_at t p = Some g"
    by (auto simp: getRep_def split: if_splits option.splits)
  from consistent_root [OF c t] have "parents_ok (r, []) t" by simp
  from parents_ok_sub [OF this s] show ?thesis by simp
qed

lemma consistent_child:
  assumes "parents_consistent h" and "getRep h (r, p @ [i]) = Some c"
  shows "parent c = Some (r, p) \<and> indexInParent c = int i"
proof -
  from assms(2) obtain g where g: "getRep h (r, p) = Some g" and i: "i < length (subfeatures g)"
    and c: "c = subfeatures g ! i"
    by (auto simp: getRep_child)
  from consistent_node [OF assms(1) g] have "parents_ok (r, p) g" .
  from parents_ok_child [OF this i] c show ?thesis by simp
qed

lemma consistent_parent:
  assumes "parents_consistent h" and "getRep h a = Some rep" and "parent rep = Some p"
  shows "snd a \<noteq> [] \<and> p = (fst a, butlast (snd a)) \<and> indexInParent rep = int (last (snd a))"
proof (cases "snd a" rule: rev_cases)
  case Nil
  then have "a = (fst a, [])" by (metis prod.collapse)
  with assms(2) have "getRep h (fst a, []) = Some rep" by simp
  from consistent_root [OF assms(1) this] assms(3) show ?thesis by simp
next
  case (snoc q i)
  then have "a = (fst a, q @ [i])" by (metis prod.collapse)
  with assms(2) have "getRep h (fst a, q @ [i]) = Some rep" by simp
  from consistent_child [OF assms(1) this] assms(3) snoc show ?thesis by simp
qed

lemma follow_down_path:
  "getRep h (r, q @ p) \<noteq> None \<Longrightarrow> follow_down h (r, q) (map int p) = Inr (r, q @ p)"
proof (induction p arbitrary: q)
  case Nil
  then show ?case by simp
next
  case (Cons i p)
  from Cons.prems obtain g where g: "getRep h (r, q) = Some g" and i: "i < length (subfeatures g)"
    by (auto simp: getRep_append split: option.splits if_splits)
  then have s: "getSubfeature h (r, q) (int i) = Inr (r, q @ [i])"
    by (simp add: getSubfeature_def)
  from Cons.prems have "getRep h (r, (q @ [i]) @ p) \<noteq> None" by simp
  from Cons.IH [OF this] s show ?case by simp
qed

lemma isInTree_trace:
  "isInTree_loop h root f trace = Some y \<Longrightarrow> parents_consistent h \<Longrightarrow>
   trace = Some acc \<Longrightarrow> y = (True, Some tr) \<Longrightarrow>
   \<exists>rel. tr = acc @ rev (map int rel) \<and> f = (fst root, snd root @ rel)"
proof (induction h root f trace y arbitrary: acc rule: isInTree_loop_induct)
  case (step loop h oldp fp trace y)
  show ?case
  proof (cases "fp = oldp")
    case True
    with step.hyps step.prems have "tr = acc" by simp
    with True show ?thesis by simp
  next
    case False
    with step.hyps step.prems obtain rep p where
      r: "getRep h fp = Some rep" "parent rep = Some p"
      by (auto split: option.splits)
    with False step.hyps
    have rec: "loop h oldp p (map_option (\<lambda>t. t @ [indexInParent rep]) trace) = Some y"
      by simp
    from consistent_parent [OF step.prems(1) r]
    have a: "snd fp \<noteq> []" "p = (fst fp, butlast (snd fp))" "indexInParent rep = int (last (snd fp))"
      by simp_all
    from step.IH [OF rec step.prems(1) _ step.prems(3), of "acc @ [indexInParent rep]"] step.prems(2)
    obtain rel where rel: "tr = (acc @ [indexInParent rep]) @ rev (map int rel)"
      "p = (fst oldp, snd oldp @ rel)"
      by auto
    have "tr = acc @ rev (map int (rel @ [last (snd fp)]))"
      using rel(1) a(3) by simp
    moreover have "fp = (fst oldp, snd oldp @ rel @ [last (snd fp)])"
    proof -
      from a(2) rel(2) have "fst fp = fst oldp" "butlast (snd fp) = snd oldp @ rel" by simp_all
      with a(1) have "snd fp = snd oldp @ rel @ [last (snd fp)]"
        by (metis append_butlast_last_id append_assoc)
      with \<open>fst fp = fst oldp\<close> show ?thesis by (metis prod.collapse)
    qed
    ultimately show ?thesis by blast
  qed
qed

lemma isInTree_trace_hd:
  "isInTree_loop h root f trace = Some y \<Longrightarrow> trace = Some acc \<Longrightarrow> y = (True, Some tr) \<Longrightarrow>
   prefix acc tr \<and> (f \<noteq> root \<longrightarrow> (\<forall>rep. getRep h f = Some rep \<longrightarrow>
       length acc < length tr \<and> tr ! length acc = indexInParent rep))"
proof (induction h root f trace y arbitrary: acc rule: isInTree_loop_induct)
  case (step loop h oldp fp trace y)
  show ?case
  proof (cases "fp = oldp")
    case True
    with step.hyps step.prems have "tr = acc" by simp
    with True show ?thesis by simp
  next
    case False
    with step.hyps step.prems obtain rep p where
      r: "getRep h fp = Some rep" "parent rep = Some p"
      by (auto split: option.splits)
    with False step.hyps
    have rec: "loop h oldp p (map_option (\<lambda>t. t @ [indexInParent rep]) trace) = Some y"
      by simp
    from step.IH [OF rec _ step.prems(2), of "acc @ [indexInParent rep]"] step.prems(1)
    have "prefix (acc @ [indexInParent rep]) tr" by simp
    then obtain zs where "tr = (acc @ [indexInParent rep]) @ zs"
      by (auto simp: prefix_def)
    with r show ?thesis by (simp add: nth_append)
  qed
qed

text \<open>
  Claim C3, as amended. \<^verbatim>\<open>isFeatureInFeatureTree\<close> returns true exactly when
  following the parent chain of \<open>f\<close> reaches \<open>root\<close>, and it returns whenever that chain is
  finite. The trace it returns is in bottom-up order and is not reversed before returning:
  its first entry is the index of \<open>f\<close> in its parent, and in a tree whose parent pointers
  and indices agree with the structure it is the reversed sequence of child indices from
  \<open>root\<close> down to \<open>f\<close>, so that descending from \<open>root\<close> along the reversed trace arrives
  at \<open>f\<close>.
\<close>

theorem isFeatureInFeatureTree_bottom_up:
  "((\<exists>tr. isFeatureInFeatureTree h root f trace = Some (True, tr)) \<longleftrightarrow> reaches h f root)
   \<and> (path_loop_up h (Some f) [] = Some chain \<longrightarrow>
        (\<exists>b tr. isFeatureInFeatureTree h root f trace = Some (b, tr) \<and> (b \<longleftrightarrow> reaches h f root)))
   \<and> (isFeatureInFeatureTree h root f (Some old) = Some (True, Some tr) \<and> f \<noteq> root
          \<and> getRep h f = Some rep
        \<longrightarrow> tr \<noteq> [] \<and> hd tr = indexInParent rep)
   \<and> (parents_consistent h \<and> isFeatureInFeatureTree h root f (Some old) = Some (True, Some tr)
        \<longrightarrow> (\<exists>rel. f = (fst root, snd root @ rel) \<and> tr = rev (map int rel))
            \<and> follow_down h root (rev tr) = Inr f)"
proof (intro conjI impI)
  show a: "(\<exists>tr. isFeatureInFeatureTree h root f trace = Some (True, tr)) \<longleftrightarrow> reaches h f root"
    for trace
    unfolding isFeatureInFeatureTree_def by (rule isInTree_iff_reaches)
  show "\<exists>b tr. isFeatureInFeatureTree h root f trace = Some (b, tr) \<and> (b \<longleftrightarrow> reaches h f root)"
    if "path_loop_up h (Some f) [] = Some chain"
  proof -
    from path_up_isInTree_terminates [OF that refl, of root "map_option (\<lambda>t. []) trace"]
    obtain b tr where r: "isFeatureInFeatureTree h root f trace = Some (b, tr)"
      by (auto simp: isFeatureInFeatureTree_def)
    have "b \<longleftrightarrow> reaches h f root"
    proof
      assume b
      with r have "\<exists>tr. isFeatureInFeatureTree h root f trace = Some (True, tr)" by simp
      with a show "reaches h f root" by simp
    next
      assume "reaches h f root"
      with a obtain tr' where "isFeatureInFeatureTree h root f trace = Some (True, tr')" by blast
      with r show b by simp
    qed
    with r show ?thesis by blast
  qed
next
  assume p: "isFeatureInFeatureTree h root f (Some old) = Some (True, Some tr) \<and> f \<noteq> root
          \<and> getRep h f = Some rep"
  then have l: "isInTree_loop h root f (Some []) = Some (True, Some tr)"
    by (simp add: isFeatureInFeatureTree_def)
  from isInTree_trace_hd [OF l refl refl] p
  have "0 < length tr \<and> tr ! 0 = indexInParent rep" by simp
  then show "tr \<noteq> []" and "hd tr = indexInParent rep"
    by (auto simp: hd_conv_nth)
next
  assume p: "parents_consistent h \<and> isFeatureInFeatureTree h root f (Some old) = Some (True, Some tr)"
  then have c: "parents_consistent h" and l: "isInTree_loop h root f (Some []) = Some (True, Some tr)"
    by (simp_all add: isFeatureInFeatureTree_def)
  from isInTree_trace [OF l c refl refl]
  obtain rel where rel: "tr = rev (map int rel)" "f = (fst root, snd root @ rel)"
    by auto
  then show "\<exists>rel. f = (fst root, snd root @ rel) \<and> tr = rev (map int rel)"
    by blast
  show "follow_down h root (rev tr) = Inr f"
  proof (cases "f = root")
    case True
    with rel have "rel = []" by (metis append_self_conv prod.collapse snd_conv)
    with rel True show ?thesis by simp
  next
    case False
    have "getRep h f \<noteq> None"
    proof
      assume "getRep h f = None"
      with False have "isInTree_loop h root f (Some []) = Some (False, Some [])"
        by (simp add: isInTree_loop_stop getParentPtr_def)
      with l show False by simp
    qed
    with rel(2) have "getRep h (fst root, snd root @ rel) \<noteq> None" by simp
    from follow_down_path [OF this] rel show ?thesis by (simp add: rev_map)
  qed
qed

text \<open>
  Claim C3 as stated fails: for \<open>Y\<close> under \<open>Root\<close> in the example, the returned trace is
  \<open>[0, 1]\<close>; read from \<open>Root\<close> downwards it does not lead to \<open>Y\<close>, whose top-down
  sequence is \<open>[1, 0]\<close>.
\<close>

theorem isFeatureInFeatureTree_trace_counterexample:
  "isFeatureInFeatureTree example_heap (0, []) (0, [1, 0]) (Some []) = Some (True, Some [0, 1])
   \<and> follow_down example_heap (0, []) [0, 1] \<noteq> Inr (0, [1, 0])
   \<and> follow_down example_heap (0, []) [1, 0] = Inr (0, [1, 0])"
  by code_simp

theorem isFeatureInFeatureTree_bottom_up_witness:
  "parents_consistent example_heap
   \<and> path_loop_up example_heap (Some (0, [1, 0])) [] = Some [(0, [1, 0]), (0, [1]), (0, [])]
   \<and> isFeatureInFeatureTree example_heap (0, []) (0, [1, 0]) (Some []) = Some (True, Some [0, 1])
   \<and> reaches example_heap (0, [1, 0]) (0, [])
   \<and> hd [0, 1] = indexInParent (leaf ''Y'' (0, [1]) 0)
   \<and> follow_down example_heap (0, []) (rev [0, 1]) = Inr (0, [1, 0])"
proof -
  have c: "parents_consistent example_heap"
    by code_simp
  have p: "path_loop_up example_heap (Some (0, [1, 0])) [] = Some [(0, [1, 0]), (0, [1]), (0, [])]"
    by code_simp
  have i: "isFeatureInFeatureTree example_heap (0, []) (0, [1, 0]) (Some []) = Some (True, Some [0, 1])"
    by code_simp
  have g: "getRep example_heap (0, [1, 0]) = Some (leaf ''Y'' (0, [1]) 0)"
    by code_simp
  have n: "((0, [1, 0]) :: addr) \<noteq> (0, [])"
    by simp
  from isFeatureInFeatureTree_bottom_up [of example_heap "(0, [])" "(0, [1, 0])" "Some []"
      "[(0, [1, 0]), (0, [1]), (0, [])]" "[]" "[0, 1]" "leaf ''Y'' (0, [1]) 0"] c p i g n
  show ?thesis
    by blast
qed
subsection \<open>findYoungestCommonAncestor\<close>

lemma ancestor_loop_sym:
  "ancestor_loop p1 p2 i1 i2 anc = ancestor_loop p2 p1 i2 i1 anc"
proof (induction i1 arbitrary: i2 anc)
  case 0
  show ?case by (cases i2) simp_all
next
  case (Suc i1)
  show ?case
  proof (cases i2)
    case 0
    then show ?thesis by simp
  next
    case (Suc j)
    with Suc.IH [of j "Some (p1 ! i1)"] show ?thesis by auto
  qed
qed

lemma ancestor_loop_same:
  "ancestor_loop p p i i anc = (if i = 0 then anc else Some (p ! 0))"
  by (induction i arbitrary: anc) auto

lemma ancestor_loop_Some: "ancestor_loop p1 p2 i1 i2 (Some x) \<noteq> None"
  by (induction p1 p2 i1 i2 "Some x" arbitrary: x rule: ancestor_loop.induct) auto

lemma ancestor_loop_None:
  "p1 \<noteq> [] \<Longrightarrow> p2 \<noteq> [] \<Longrightarrow>
   ancestor_loop p1 p2 (length p1) (length p2) None = None \<longleftrightarrow> last p1 \<noteq> last p2"
proof -
  assume a: "p1 \<noteq> []" "p2 \<noteq> []"
  then obtain n1 n2 where n: "length p1 = Suc n1" "length p2 = Suc n2"
    by (metis length_0_conv not0_implies_Suc)
  with a have l: "last p1 = p1 ! n1" "last p2 = p2 ! n2"
    by (simp_all add: last_conv_nth)
  show ?thesis
    using n l ancestor_loop_Some [of p1 p2 n1 n2 "p1 ! n1"] by auto
qed

lemma path_loop_up_prefix:
  "path_loop_up h fp acc = Some chain \<Longrightarrow>
   prefix (acc @ (case fp of None \<Rightarrow> [] | Some a \<Rightarrow> [a])) chain"
proof (induction h fp acc chain rule: path_loop_up_induct)
  case (step up h fp acc chain)
  show ?case
  proof (cases fp)
    case None
    with step.hyps show ?thesis by simp
  next
    case (Some a)
    with step.hyps have "up h (getParentPtr h a) (acc @ [a]) = Some chain" by simp
    from step.IH [OF this] have "prefix (acc @ [a]) chain"
      by (auto simp: prefix_def split: option.splits)
    with Some show ?thesis by simp
  qed
qed

lemma path_loop_up_hd:
  assumes "path_loop_up h (Some a) [] = Some chain"
  shows "chain \<noteq> [] \<and> chain ! 0 = a"
proof -
  from path_loop_up_prefix [OF assms] have "prefix [a] chain" by simp
  then show ?thesis by (auto simp: prefix_def)
qed

lemma findRoot_path:
  "findRootFeature h a = Some y \<Longrightarrow> y = Inr r \<Longrightarrow>
   \<exists>chain. path_loop_up h (Some a) acc = Some chain \<and> chain \<noteq> [] \<and> last chain = r"
proof (induction h a y arbitrary: acc rule: findRootFeature_induct)
  case (step root h a y)
  from step.hyps step.prems obtain f where f: "getRep h a = Some f"
    by (auto split: option.splits)
  show ?case
  proof (cases "parent f")
    case None
    with f step.hyps step.prems have "r = a" by simp
    moreover from None f have "getParentPtr h a = None" by (simp add: getParentPtr_def)
    then have "path_loop_up h (Some a) acc = Some (acc @ [a])"
      by (subst path_loop_up.simps, subst path_loop_up.simps) simp
    ultimately show ?thesis by simp
  next
    case (Some p)
    with f step.hyps have "root h p = Some y" by simp
    from step.IH [OF this step.prems, of "acc @ [a]"]
    obtain chain where c: "path_loop_up h (Some p) (acc @ [a]) = Some chain" "chain \<noteq> []"
      "last chain = r" by blast
    from Some f have "getParentPtr h a = Some p" by (simp add: getParentPtr_def)
    with c(1) have "path_loop_up h (Some a) acc = Some chain"
      by (subst path_loop_up.simps) simp
    with c show ?thesis by blast
  qed
qed

text \<open>
  Claim C4. \<^verbatim>\<open>findYoungestCommonAncestor\<close> is symmetric in its two Features; for a
  Feature with a root it returns the Feature itself when both arguments are that Feature;
  and for two Features with roots it returns, with the null pointer as result exactly when
  the two roots differ.
\<close>

theorem findYoungestCommonAncestor_symmetric:
  "findYoungestCommonAncestor h a b = findYoungestCommonAncestor h b a
   \<and> (findRootFeature h a = Some (Inr ra) \<longrightarrow> findYoungestCommonAncestor h a a = Some (Some a))
   \<and> (findRootFeature h a = Some (Inr ra) \<and> findRootFeature h b = Some (Inr rb) \<longrightarrow>
        (\<exists>r. findYoungestCommonAncestor h a b = Some r \<and> (r = None \<longleftrightarrow> ra \<noteq> rb)))"
proof (intro conjI impI)
  show "findYoungestCommonAncestor h a b = findYoungestCommonAncestor h b a"
    by (auto simp: findYoungestCommonAncestor_def ancestor_loop_sym split: option.splits)
next
  assume "findRootFeature h a = Some (Inr ra)"
  from findRoot_path [OF this refl, of "[]"]
  obtain pa where pa: "path_loop_up h (Some a) [] = Some pa" "pa \<noteq> []" by blast
  from path_loop_up_hd [OF pa(1)] have "pa ! 0 = a" by simp
  with pa show "findYoungestCommonAncestor h a a = Some (Some a)"
    by (simp add: findYoungestCommonAncestor_def ancestor_loop_same)
next
  assume r: "findRootFeature h a = Some (Inr ra) \<and> findRootFeature h b = Some (Inr rb)"
  from findRoot_path [of h a "Inr ra" ra "[]"] r
  obtain pa where pa: "path_loop_up h (Some a) [] = Some pa" "pa \<noteq> []" "last pa = ra" by blast
  from findRoot_path [of h b "Inr rb" rb "[]"] r
  obtain pb where pb: "path_loop_up h (Some b) [] = Some pb" "pb \<noteq> []" "last pb = rb" by blast
  show "\<exists>r. findYoungestCommonAncestor h a b = Some r \<and> (r = None \<longleftrightarrow> ra \<noteq> rb)"
  proof (intro exI conjI)
    show "findYoungestCommonAncestor h a b
        = Some (ancestor_loop pa pb (length pa) (length pb) None)"
      using pa(1) pb(1) by (simp add: findYoungestCommonAncestor_def)
    show "ancestor_loop pa pb (length pa) (length pb) None = None \<longleftrightarrow> ra \<noteq> rb"
      using ancestor_loop_None [OF pa(2) pb(2)] pa(3) pb(3) by simp
  qed
qed

theorem findYoungestCommonAncestor_symmetric_witness:
  "findRootFeature example_heap (0, [0, 1]) = Some (Inr (0, []))
   \<and> findRootFeature example_heap (0, [1, 0]) = Some (Inr (0, []))
   \<and> findYoungestCommonAncestor example_heap (0, [0, 1]) (0, [0, 1]) = Some (Some (0, [0, 1]))
   \<and> findYoungestCommonAncestor example_heap (0, [0, 1]) (0, [1, 0])
       = findYoungestCommonAncestor example_heap (0, [1, 0]) (0, [0, 1])
   \<and> (\<exists>r. findYoungestCommonAncestor example_heap (0, [0, 1]) (0, [1, 0]) = Some r
          \<and> (r = None \<longleftrightarrow> ((0, []) :: addr) \<noteq> (0, [])))"
proof -
  have a: "findRootFeature example_heap (0, [0, 1]) = Some (Inr (0, []))"
    by code_simp
  have b: "findRootFeature example_heap (0, [1, 0]) = Some (Inr (0, []))"
    by code_simp
  from findYoungestCommonAncestor_symmetric
    [of example_heap "(0, [0, 1])" "(0, [1, 0])" "(0, [])" "(0, [])"] a b
  show ?thesis
    by blast
qed

section \<open>Writing through a handle\<close>

lemma setSubfeatures_sel [simp]:
  "name (setSubfeatures s x) = name x"
  "featureTypeName (setSubfeatures s x) = featureTypeName x"
  "requiredPlacementType (setSubfeatures s x) = requiredPlacementType x"
  "parent (setSubfeatures s x) = parent x"
  "indexInParent (setSubfeatures s x) = indexInParent x"
  "subfeatures (setSubfeatures s x) = s"
  "placementExpressions (setSubfeatures s x) = placementExpressions x"
  "placementValues (setSubfeatures s x) = placementValues x"
  "placement (setSubfeatures s x) = placement x"
  by (cases x; simp)+

lemma setPlacementExpressions_sel [simp]:
  "name (setPlacementExpressions s x) = name x"
  "featureTypeName (setPlacementExpressions s x) = featureTypeName x"
  "requiredPlacementType (setPlacementExpressions s x) = requiredPlacementType x"
  "parent (setPlacementExpressions s x) = parent x"
  "indexInParent (setPlacementExpressions s x) = indexInParent x"
  "subfeatures (setPlacementExpressions s x) = subfeatures x"
  "placementExpressions (setPlacementExpressions s x) = s"
  "placementValues (setPlacementExpressions s x) = placementValues x"
  "placement (setPlacementExpressions s x) = placement x"
  by (cases x; simp)+

lemma setPlacement_sel [simp]:
  "name (setPlacement s x) = name x"
  "featureTypeName (setPlacement s x) = featureTypeName x"
  "requiredPlacementType (setPlacement s x) = requiredPlacementType x"
  "parent (setPlacement s x) = parent x"
  "indexInParent (setPlacement s x) = indexInParent x"
  "subfeatures (setPlacement s x) = subfeatures x"
  "placementExpressions (setPlacement s x) = placementExpressions x"
  "placementValues (setPlacement s x) = placementValues x"
  "placement (setPlacement s x) = s"
  by (cases x; simp)+

lemma update_at_same:
  "subfeature_at f p = Some x \<Longrightarrow> subfeature_at (update_at f p g) p = Some (g x)"
  by (induction p arbitrary: f) (auto split: if_splits)

lemma update_at_missing:
  "subfeature_at f p = None \<Longrightarrow> update_at f p g = f"
proof (induction p arbitrary: f)
  case Nil
  then show ?case by simp
next
  case (Cons i p)
  show ?case
  proof (cases "i < length (subfeatures f)")
    case True
    with Cons.prems have "subfeature_at (subfeatures f ! i) p = None" by simp
    from Cons.IH [OF this] True show ?thesis
      by (cases f) simp
  next
    case False
    then show ?thesis by simp
  qed
qed

lemma update_at_other:
  assumes k: "\<And>x. subfeatures (g x) = subfeatures x"
    and s: "\<And>s x. sel (setSubfeatures s x) = sel x"
  shows "q \<noteq> p \<Longrightarrow>
    map_option sel (subfeature_at (update_at f p g) q) = map_option sel (subfeature_at f q)"
proof (induction p arbitrary: f q)
  case Nil
  then obtain i q' where "q = i # q'" by (cases q) auto
  then show ?case by (simp add: k)
next
  case (Cons j p)
  show ?case
  proof (cases "j < length (subfeatures f)")
    case False
    then show ?thesis by simp
  next
    case True
    show ?thesis
    proof (cases q)
      case Nil
      with True show ?thesis by (simp add: s)
    next
      case (Cons i q')
      show ?thesis
      proof (cases "i = j")
        case True
        with Cons Cons.prems have "q' \<noteq> p" by simp
        from Cons.IH [OF this, of "subfeatures f ! j"] True Cons \<open>j < length (subfeatures f)\<close>
        show ?thesis by simp
      next
        case False
        with Cons True show ?thesis by simp
      qed
    qed
  qed
qed

lemma getRep_updRep_same:
  "getRep h a = Some x \<Longrightarrow> getRep (updRep h a g) a = Some (g x)"
  by (auto simp: getRep_def updRep_def update_at_same split: option.splits if_splits)

lemma getRep_updRep_other:
  assumes k: "\<And>x. subfeatures (g x) = subfeatures x"
    and s: "\<And>s x. sel (setSubfeatures s x) = sel x"
    and n: "b \<noteq> a"
  shows "map_option sel (getRep (updRep h a g) b) = map_option sel (getRep h b)"
proof (cases "fst b = fst a")
  case False
  then show ?thesis
    by (auto simp: getRep_def updRep_def split: option.splits)
next
  case True
  with n have "snd b \<noteq> snd a" by (metis prod.collapse)
  from update_at_other [of g sel, OF k s this] True show ?thesis
    by (auto simp: getRep_def updRep_def split: option.splits)
qed

lemma getRep_updRep_exists:
  assumes k: "\<And>x. subfeatures (g x) = subfeatures x"
  shows "getRep (updRep h a g) b = None \<longleftrightarrow> getRep h b = None"
proof (cases "b = a")
  case True
  show ?thesis
  proof (cases "getRep h a")
    case None
    then have "updRep h a g = h"
      by (auto simp: getRep_def updRep_def update_at_missing list_update_same_conv
          split: option.splits if_splits)
    with True None show ?thesis by simp
  next
    case (Some x)
    from getRep_updRep_same [OF this] True Some show ?thesis by simp
  qed
next
  case False
  from getRep_updRep_other [of g name b a h, OF k _ False] show ?thesis
    by (metis option.map_disc_iff setSubfeatures_sel(1))
qed

section \<open>Properties of the Resolver\<close>

text \<open>
  Claim C7, as amended. When the category of \<open>p\<close> differs from the category that \<open>F\<close>
  requires and the conversion yields no placement, \<^verbatim>\<open>place\<close> raises
  \<^verbatim>\<open>PlacementCantBeUsedForThisFeature\<close> with the name of the category of \<open>p\<close>, the full
  path name of \<open>F\<close> and the kind of \<open>F\<close>.
\<close>

theorem place_type_mismatch_error:
  "getRep h F = Some rep \<and> placementType p \<noteq> requiredPlacementType rep
     \<and> conv h F p = None \<and> getFullName h F = Some (Inr fullName)
   \<longrightarrow> place conv hook h F p
       = Some (Inl (PlacementCantBeUsedForThisFeature
                      (getPlacementTypeName (placementType p)) fullName (featureTypeName rep)))"
  by (simp add: place_def bindR_def)

text \<open>
  Claim C7 as stated fails: the Feature \<open>X\<close> of the example requires the category Real;
  for a Vec3 placement the error names Vec3, the category of the placement, and nothing
  in it names Real.
\<close>

theorem place_type_mismatch_counterexample:
  "map_option requiredPlacementType (getRep example_heap (0, [0, 0])) = Some RealPlacementType
   \<and> getPlacementTypeName RealPlacementType = ''Real''
   \<and> place no_conversion no_hook example_heap (0, [0, 0]) (constant_placement Vec3PlacementType)
       = Some (Inl (PlacementCantBeUsedForThisFeature ''Vec3'' ''Root/A/X'' ''RealParameter''))
   \<and> ''Real'' \<notin> set [''Vec3'', ''Root/A/X'', ''RealParameter'']"
  by code_simp

theorem place_type_mismatch_error_witness:
  "getRep example_heap (0, [0, 0]) = Some (real_parameter ''X'' (0, [0]) 0)
   \<and> placementType (constant_placement Vec3PlacementType)
       \<noteq> requiredPlacementType (real_parameter ''X'' (0, [0]) 0)
   \<and> no_conversion example_heap (0, [0, 0]) (constant_placement Vec3PlacementType) = None
   \<and> getFullName example_heap (0, [0, 0]) = Some (Inr ''Root/A/X'')
   \<and> place no_conversion no_hook example_heap (0, [0, 0]) (constant_placement Vec3PlacementType)
       = Some (Inl (PlacementCantBeUsedForThisFeature
                      (getPlacementTypeName (placementType (constant_placement Vec3PlacementType)))
                      ''Root/A/X'' (featureTypeName (real_parameter ''X'' (0, [0]) 0))))"
proof -
  have a: "getRep example_heap (0, [0, 0]) = Some (real_parameter ''X'' (0, [0]) 0)"
    by code_simp
  have b: "placementType (constant_placement Vec3PlacementType)
       \<noteq> requiredPlacementType (real_parameter ''X'' (0, [0]) 0)"
    by code_simp
  have c: "no_conversion example_heap (0, [0, 0]) (constant_placement Vec3PlacementType) = None"
    by (simp add: no_conversion_def)
  have d: "getFullName example_heap (0, [0, 0]) = Some (Inr ''Root/A/X'')"
    by code_simp
  from place_type_mismatch_error [of example_heap "(0, [0, 0])" "real_parameter ''X'' (0, [0]) 0"
      "constant_placement Vec3PlacementType" no_conversion "''Root/A/X''" no_hook] a b c d
  show ?thesis
    by blast
qed

lemma findRoot_no_self_loop:
  "findRootFeature h a = Some y \<Longrightarrow> getParentPtr h a \<noteq> Some a"
proof (induction h a y rule: findRootFeature_induct)
  case (step root h a y)
  show ?case
  proof
    assume s: "getParentPtr h a = Some a"
    then obtain rep where r: "getRep h a = Some rep" "parent rep = Some a"
      by (auto simp: getParentPtr_Some)
    with step.hyps have "root h a = Some y" by simp
    from step.IH [OF this] s show False by simp
  qed
qed

lemma findRoot_parent:
  assumes "findRootFeature h a = Some (Inr r)" and "getRep h a = Some rep"
    and "parent rep = Some p"
  shows "p \<noteq> a \<and> (\<exists>prep. getRep h p = Some prep) \<and> findRootFeature h p = Some (Inr r)"
proof -
  from assms have e: "findRootFeature h p = Some (Inr r)"
    by (subst (asm) findRootFeature.simps) simp
  then have "\<exists>prep. getRep h p = Some prep"
    by (subst (asm) findRootFeature.simps) (auto split: option.splits)
  moreover from findRoot_no_self_loop [OF assms(1)] assms(2,3) have "p \<noteq> a"
    by (auto simp: getParentPtr_def)
  ultimately show ?thesis using e by simp
qed

lemma addPlacementLike_local:
  assumes "getRep h this = Some rep" and "isLimitedToSubtree h p this = Some None"
  shows "addPlacementLike h this p =
     Some (Inr (updRep h this (setPlacementExpressions (placementExpressions rep
                   @ [setOwner this (int (length (placementExpressions rep))) (cloneUnowned p)])),
                (this, length (placementExpressions rep))))"
  using assms by (simp add: addPlacementLike_def Let_def)

lemma dependsOn_constant: "featureRefs p = [] \<Longrightarrow> dependsOn h p f = Some (Inr False)"
  by (simp add: dependsOn_def dependsOn_loop.simps)

text \<open>
  Claim C1. A placement that references no Features (after the reconciliation of its
  category) and is placed on a Feature \<open>F\<close> with a root is registered successfully; the
  placement that \<open>F\<close> then records is a copy of it, stored with and owned by \<open>F\<close> itself
  when \<open>F\<close> is a root, and by the parent of \<open>F\<close>, which is not \<open>F\<close>, otherwise.
\<close>

theorem place_constant_owner:
  "getRep h F = Some rep
   \<and> (if placementType p = requiredPlacementType rep then Some p else conv h F p) = Some pT
   \<and> placementType pT = requiredPlacementType rep \<and> featureRefs pT = []
   \<and> findRootFeature h F = Some (Inr root)
   \<longrightarrow> (\<exists>h2 good stored. place conv hook h F p = Some (Inr (hook h2 F))
        \<and> map_option placement (getRep h2 F) = Some (Some good)
        \<and> getPlacementExpression h2 good = Some stored
        \<and> owner stored = Some (case parent rep of None \<Rightarrow> F | Some par \<Rightarrow> par)
        \<and> fst good = (case parent rep of None \<Rightarrow> F | Some par \<Rightarrow> par)
        \<and> (parent rep \<noteq> None \<longrightarrow> owner stored \<noteq> Some F)
        \<and> stored\<lparr>owner := owner pT, indexInOwner := indexInOwner pT\<rparr> = pT)"
proof
  assume asm: "getRep h F = Some rep
   \<and> (if placementType p = requiredPlacementType rep then Some p else conv h F p) = Some pT
   \<and> placementType pT = requiredPlacementType rep \<and> featureRefs pT = []
   \<and> findRootFeature h F = Some (Inr root)"
  then have rep: "getRep h F = Some rep"
    and pT: "(if placementType p = requiredPlacementType rep then Some p else conv h F p) = Some pT"
    and ty: "placementType pT = requiredPlacementType rep"
    and refs: "featureRefs pT = []"
    and root: "findRootFeature h F = Some (Inr root)"
    by simp_all
  define ya where "ya = (case parent rep of None \<Rightarrow> F | Some par \<Rightarrow> par)"
  have ya: "\<exists>yrep. getRep h ya = Some yrep" and neq: "parent rep \<noteq> None \<longrightarrow> ya \<noteq> F"
    using findRoot_parent [OF root rep] rep by (auto simp: ya_def split: option.splits)
  then obtain yrep where yrep: "getRep h ya = Some yrep" by blast
  define k where "k = length (placementExpressions yrep)"
  define stored where "stored = setOwner ya (int k) (cloneUnowned pT)"
  define g1 where "g1 = setPlacementExpressions (placementExpressions yrep @ [stored])"
  define h1 where "h1 = updRep h ya g1"
  define good where "good = (ya, k)"
  define h2 where "h2 = updRep h1 F (setPlacement (Some good))"
  have lim: "isLimitedToSubtree h pT a = Some None" for a
    by (simp add: isLimitedToSubtree_def refs)
  have anc: "findAncestorFeature h pT ya = Some (Some ya)"
    by (simp add: findAncestorFeature_def refs)
  have add: "addPlacementLike h ya pT = Some (Inr (h1, good))"
    using addPlacementLike_local [OF yrep lim]
    by (simp add: h1_def g1_def stored_def good_def k_def)
  have y1: "getRep h1 ya = Some (g1 yrep)"
    unfolding h1_def by (rule getRep_updRep_same [OF yrep])
  have gp1: "getPlacementExpression h1 good = Some stored"
    using y1 by (simp add: getPlacementExpression_def good_def g1_def k_def)
  have ow: "owner stored = Some ya" and const: "isConstant stored"
    by (simp_all add: stored_def setOwner_def cloneUnowned_def isConstant_def refs)
  have F1: "\<exists>rep1. getRep h1 F = Some rep1 \<and> parent rep1 = parent rep"
  proof (cases "F = ya")
    case True
    with y1 yrep rep show ?thesis by (simp add: g1_def)
  next
    case False
    have "map_option parent (getRep h1 F) = map_option parent (getRep h F)"
      unfolding h1_def by (rule getRep_updRep_other [OF _ _ False]) (simp_all add: g1_def)
    with rep show ?thesis by auto
  qed
  then obtain rep1 where rep1: "getRep h1 F = Some rep1" "parent rep1 = parent rep" by blast
  have intree: "isFeatureInFeatureTree h1 ya F None = Some (True, None)"
  proof (cases "F = ya")
    case True
    then show ?thesis by (simp add: isFeatureInFeatureTree_def isInTree_loop_root)
  next
    case False
    then have "parent rep = Some ya"
      by (auto simp: ya_def split: option.splits)
    with rep1 have "parent rep1 = Some ya" by simp
    from isInTree_loop_step [OF False rep1(1) this, of None] show ?thesis
      by (simp add: isFeatureInFeatureTree_def isInTree_loop_root)
  qed
  have dep: "dependsOn h1 stored F = Some (Inr False)"
    by (rule dependsOn_constant) (simp add: stored_def setOwner_def cloneUnowned_def refs)
  have chk: "place_checks h1 F good = Some (Inr ())"
    using gp1 ow const intree dep by (simp add: place_checks_def bindR_def)
  have pl: "place conv hook h F p = Some (Inr (hook h2 F))"
    using rep pT ty root lim anc add chk
    by (simp add: place_def bindR_def ya_def [symmetric] h2_def Let_def)
  have F2: "getRep h2 F = Some (setPlacement (Some good) rep1)"
    unfolding h2_def by (rule getRep_updRep_same [OF rep1(1)])
  have gp2: "getPlacementExpression h2 good = Some stored"
  proof (cases "F = ya")
    case True
    with y1 rep1 have "rep1 = g1 yrep" by simp
    then have "placementExpressions rep1 = placementExpressions yrep @ [stored]"
      by (simp add: g1_def)
    with F2 True show ?thesis
      by (simp add: getPlacementExpression_def good_def k_def)
  next
    case False
    then have "ya \<noteq> F" by simp
    have "map_option placementExpressions (getRep h2 ya)
        = map_option placementExpressions (getRep h1 ya)"
      unfolding h2_def by (rule getRep_updRep_other [OF _ _ \<open>ya \<noteq> F\<close>]) simp_all
    with y1 show ?thesis
      by (auto simp: getPlacementExpression_def good_def g1_def k_def)
  qed
  have copy: "stored\<lparr>owner := owner pT, indexInOwner := indexInOwner pT\<rparr> = pT"
    by (simp add: stored_def setOwner_def cloneUnowned_def)
  show "\<exists>h2 good stored. place conv hook h F p = Some (Inr (hook h2 F))
        \<and> map_option placement (getRep h2 F) = Some (Some good)
        \<and> getPlacementExpression h2 good = Some stored
        \<and> owner stored = Some (case parent rep of None \<Rightarrow> F | Some par \<Rightarrow> par)
        \<and> fst good = (case parent rep of None \<Rightarrow> F | Some par \<Rightarrow> par)
        \<and> (parent rep \<noteq> None \<longrightarrow> owner stored \<noteq> Some F)
        \<and> stored\<lparr>owner := owner pT, indexInOwner := indexInOwner pT\<rparr> = pT"
  proof (intro exI conjI)
    show "place conv hook h F p = Some (Inr (hook h2 F))" by (rule pl)
    show "map_option placement (getRep h2 F) = Some (Some good)" using F2 by simp
    show "getPlacementExpression h2 good = Some stored" by (rule gp2)
    show "owner stored = Some (case parent rep of None \<Rightarrow> F | Some par \<Rightarrow> par)"
      using ow by (simp add: ya_def)
    show "fst good = (case parent rep of None \<Rightarrow> F | Some par \<Rightarrow> par)"
      by (simp add: good_def ya_def)
    show "parent rep \<noteq> None \<longrightarrow> owner stored \<noteq> Some F"
      using ow neq by simp
    show "stored\<lparr>owner := owner pT, indexInOwner := indexInOwner pT\<rparr> = pT" by (rule copy)
  qed
qed

theorem place_constant_owner_witness:
  "getRep example_heap (0, [0, 0]) = Some (real_parameter ''X'' (0, [0]) 0)
   \<and> parent (real_parameter ''X'' (0, [0]) 0) = Some (0, [0])
   \<and> findRootFeature example_heap (0, [0, 0]) = Some (Inr (0, []))
   \<and> (\<exists>h2 good stored.
        place no_conversion no_hook example_heap (0, [0, 0]) (constant_placement RealPlacementType)
          = Some (Inr (no_hook h2 (0, [0, 0])))
        \<and> map_option placement (getRep h2 (0, [0, 0])) = Some (Some good)
        \<and> getPlacementExpression h2 good = Some stored
        \<and> owner stored = Some (case parent (real_parameter ''X'' (0, [0]) 0) of
                                 None \<Rightarrow> (0, [0, 0]) | Some par \<Rightarrow> par)
        \<and> (parent (real_parameter ''X'' (0, [0]) 0) \<noteq> None \<longrightarrow> owner stored \<noteq> Some (0, [0, 0])))"
proof -
  have a: "getRep example_heap (0, [0, 0]) = Some (real_parameter ''X'' (0, [0]) 0)"
    by code_simp
  have b: "(if placementType (constant_placement RealPlacementType)
              = requiredPlacementType (real_parameter ''X'' (0, [0]) 0)
            then Some (constant_placement RealPlacementType)
            else no_conversion example_heap (0, [0, 0]) (constant_placement RealPlacementType))
       = Some (constant_placement RealPlacementType)"
    by code_simp
  have c: "placementType (constant_placement RealPlacementType)
       = requiredPlacementType (real_parameter ''X'' (0, [0]) 0)"
    by code_simp
  have d: "featureRefs (constant_placement RealPlacementType) = []"
    by code_simp
  have e: "findRootFeature example_heap (0, [0, 0]) = Some (Inr (0, []))"
    by code_simp
  have f: "parent (real_parameter ''X'' (0, [0]) 0) = Some (0, [0])"
    by code_simp
  from place_constant_owner [of example_heap "(0, [0, 0])" "real_parameter ''X'' (0, [0]) 0"
      "constant_placement RealPlacementType" no_conversion "constant_placement RealPlacementType"
      "(0, [])" no_hook] a b c d e f
  show ?thesis
    by blast
qed

section \<open>Properties of registration\<close>

lemmas getFullName_induct = getFullName.raw_induct [rotated -1, consumes 1, case_names step]

lemma path_loop_up_Some:
  "path_loop_up h (Some a) acc = path_loop_up h (getParentPtr h a) (acc @ [a])"
  by (subst path_loop_up.simps) simp

lemma path_loop_up_None: "path_loop_up h None acc = Some acc"
  by (subst path_loop_up.simps) simp

lemma getFullName_path:
  "getFullName h a = Some y \<Longrightarrow> \<exists>chain. path_loop_up h (Some a) acc = Some chain"
proof (induction h a y arbitrary: acc rule: getFullName_induct)
  case (step gfn h a y)
  show ?case
  proof (cases "getParentPtr h a")
    case None
    then show ?thesis by (simp add: path_loop_up_Some path_loop_up_None)
  next
    case (Some p)
    then obtain rep where r: "getRep h a = Some rep" "parent rep = Some p"
      by (auto simp: getParentPtr_Some)
    with step.hyps obtain z where "gfn h p = Some z"
      by (auto simp: bind_eq_Some_conv)
    from step.IH [OF this, of "acc @ [a]"] Some show ?thesis
      by (simp add: path_loop_up_Some)
  qed
qed

lemma isInTree_decides:
  assumes "path_loop_up h (Some f) [] = Some chain"
  shows "\<exists>tr. isFeatureInFeatureTree h root f trace = Some (reaches h f root, tr)"
proof -
  from path_up_isInTree_terminates [OF assms refl, of root "map_option (\<lambda>t. []) trace"]
  obtain b tr where r: "isInTree_loop h root f (map_option (\<lambda>t. []) trace) = Some (b, tr)"
    by auto
  have "b \<longleftrightarrow> reaches h f root"
  proof
    assume b
    with r isInTree_reaches [OF r] show "reaches h f root" by simp
  next
    assume "reaches h f root"
    from reaches_isInTree [OF this, of "map_option (\<lambda>t. []) trace"] r show b by auto
  qed
  with r show ?thesis by (simp add: isFeatureInFeatureTree_def)
qed

lemma isLimited_all:
  "(\<forall>f. Some f \<in> set refs \<longrightarrow> reaches h f root) \<Longrightarrow>
   isLimitedToSubtree_loop h root refs = Some None"
proof (induction refs)
  case Nil
  show ?case by simp
next
  case (Cons r refs)
  show ?case
  proof (cases r)
    case None
    with Cons show ?thesis by simp
  next
    case (Some f)
    with Cons.prems have "reaches h f root" by (metis list.set_intros(1))
    from reaches_isInTree [OF this, of None] obtain tr where
      "isFeatureInFeatureTree h root f None = Some (True, tr)"
      by (auto simp: isFeatureInFeatureTree_def)
    with Some Cons show ?thesis by simp
  qed
qed

lemma isLimited_offender:
  "(\<forall>f. Some f \<in> set refs \<longrightarrow> (\<exists>c. path_loop_up h (Some f) [] = Some c)) \<Longrightarrow>
   (\<exists>f. Some f \<in> set refs \<and> \<not> reaches h f root) \<Longrightarrow>
   \<exists>f. isLimitedToSubtree_loop h root refs = Some (Some f) \<and> Some f \<in> set refs
       \<and> \<not> reaches h f root"
proof (induction refs)
  case Nil
  then show ?case by simp
next
  case (Cons r refs)
  show ?case
  proof (cases r)
    case None
    with Cons.prems have "\<forall>f. Some f \<in> set refs \<longrightarrow> (\<exists>c. path_loop_up h (Some f) [] = Some c)"
      and "\<exists>f. Some f \<in> set refs \<and> \<not> reaches h f root"
      by auto
    from Cons.IH [OF this] None show ?thesis by auto
  next
    case (Some f)
    with Cons.prems(1) obtain c where "path_loop_up h (Some f) [] = Some c"
      by (metis list.set_intros(1))
    from isInTree_decides [OF this, of root None] obtain tr where
      d: "isFeatureInFeatureTree h root f None = Some (reaches h f root, tr)" by blast
    show ?thesis
    proof (cases "reaches h f root")
      case False
      with d Some show ?thesis by simp
    next
      case True
      with Some Cons.prems have "\<forall>f. Some f \<in> set refs \<longrightarrow> (\<exists>c. path_loop_up h (Some f) [] = Some c)"
        and "\<exists>f. Some f \<in> set refs \<and> \<not> reaches h f root"
        by auto
      from Cons.IH [OF this] True d Some show ?thesis by auto
    qed
  qed
qed

text \<open>
  Claim C6. For an owner \<open>O\<close> with a full name and a placement whose referenced Features
  have full names, \<^verbatim>\<open>addPlacementLike\<close> raises \<^verbatim>\<open>PlacementMustBeLocal\<close> exactly when
  the parent chain of some referenced Feature does not reach \<open>O\<close>, and then the error
  names \<open>O\<close> and such a Feature by their full names. Otherwise it succeeds: the sequence
  of placement expressions of \<open>O\<close> is the previous one followed by a copy of the placement
  that differs from it only in its owner, which is \<open>O\<close> whatever owner the placement had,
  and in its index, which is the previous length of the sequence; the returned reference
  designates that copy.
\<close>

theorem addPlacementLike_local_or_error:
  "getRep h O' = Some orep \<and> getFullName h O' = Some (Inr ownerName)
     \<and> (\<forall>f. Some f \<in> set (featureRefs p) \<longrightarrow> (\<exists>nf. getFullName h f = Some (Inr nf)))
   \<longrightarrow> ((\<exists>f. Some f \<in> set (featureRefs p) \<and> \<not> reaches h f O')
          \<longleftrightarrow> (\<exists>a b c. addPlacementLike h O' p = Some (Inl (PlacementMustBeLocal a b c))))
     \<and> ((\<exists>f. Some f \<in> set (featureRefs p) \<and> \<not> reaches h f O')
          \<longrightarrow> (\<exists>f nf. Some f \<in> set (featureRefs p) \<and> \<not> reaches h f O'
                \<and> getFullName h f = Some (Inr nf)
                \<and> addPlacementLike h O' p
                    = Some (Inl (PlacementMustBeLocal ''FeatureRep::addPlacementLike''
                                   ownerName nf))))
     \<and> ((\<forall>f. Some f \<in> set (featureRefs p) \<longrightarrow> reaches h f O')
          \<longrightarrow> (\<exists>h' stored.
                addPlacementLike h O' p
                  = Some (Inr (h', (O', length (placementExpressions orep))))
                \<and> map_option placementExpressions (getRep h' O')
                    = Some (placementExpressions orep @ [stored])
                \<and> getPlacementExpression h' (O', length (placementExpressions orep)) = Some stored
                \<and> stored = p\<lparr>owner := Some O',
                              indexInOwner := int (length (placementExpressions orep))\<rparr>))"
proof
  assume asm: "getRep h O' = Some orep \<and> getFullName h O' = Some (Inr ownerName)
     \<and> (\<forall>f. Some f \<in> set (featureRefs p) \<longrightarrow> (\<exists>nf. getFullName h f = Some (Inr nf)))"
  then have orep: "getRep h O' = Some orep" and nO: "getFullName h O' = Some (Inr ownerName)"
    and names: "\<forall>f. Some f \<in> set (featureRefs p) \<longrightarrow> (\<exists>nf. getFullName h f = Some (Inr nf))"
    by simp_all
  have fin: "\<forall>f. Some f \<in> set (featureRefs p) \<longrightarrow> (\<exists>c. path_loop_up h (Some f) [] = Some c)"
    using names getFullName_path by blast
  have bad: "\<exists>f nf. Some f \<in> set (featureRefs p) \<and> \<not> reaches h f O'
                \<and> getFullName h f = Some (Inr nf)
                \<and> addPlacementLike h O' p
                    = Some (Inl (PlacementMustBeLocal ''FeatureRep::addPlacementLike''
                                   ownerName nf))"
    if "\<exists>f. Some f \<in> set (featureRefs p) \<and> \<not> reaches h f O'"
  proof -
    from isLimited_offender [OF fin that] obtain f where
      f: "isLimitedToSubtree h p O' = Some (Some f)" "Some f \<in> set (featureRefs p)"
        "\<not> reaches h f O'"
      by (auto simp: isLimitedToSubtree_def)
    from names f(2) obtain nf where nf: "getFullName h f = Some (Inr nf)" by blast
    from orep nO f(1) nf
    have "addPlacementLike h O' p
        = Some (Inl (PlacementMustBeLocal ''FeatureRep::addPlacementLike'' ownerName nf))"
      by (simp add: addPlacementLike_def bindR_def)
    with f nf show ?thesis by blast
  qed
  have good: "\<exists>h' stored.
                addPlacementLike h O' p
                  = Some (Inr (h', (O', length (placementExpressions orep))))
                \<and> map_option placementExpressions (getRep h' O')
                    = Some (placementExpressions orep @ [stored])
                \<and> getPlacementExpression h' (O', length (placementExpressions orep)) = Some stored
                \<and> stored = p\<lparr>owner := Some O',
                              indexInOwner := int (length (placementExpressions orep))\<rparr>"
    if "\<forall>f. Some f \<in> set (featureRefs p) \<longrightarrow> reaches h f O'"
  proof -
    define stored where
      "stored = setOwner O' (int (length (placementExpressions orep))) (cloneUnowned p)"
    define h' where
      "h' = updRep h O' (setPlacementExpressions (placementExpressions orep @ [stored]))"
    from isLimited_all [OF that] have "isLimitedToSubtree h p O' = Some None"
      by (simp add: isLimitedToSubtree_def)
    from addPlacementLike_local [OF orep this]
    have a: "addPlacementLike h O' p
        = Some (Inr (h', (O', length (placementExpressions orep))))"
      by (simp add: h'_def stored_def)
    have g: "getRep h' O'
        = Some (setPlacementExpressions (placementExpressions orep @ [stored]) orep)"
      unfolding h'_def by (rule getRep_updRep_same [OF orep])
    have s: "stored = p\<lparr>owner := Some O',
                          indexInOwner := int (length (placementExpressions orep))\<rparr>"
      by (simp add: stored_def setOwner_def cloneUnowned_def)
    show ?thesis
    proof (intro exI conjI)
      show "addPlacementLike h O' p
          = Some (Inr (h', (O', length (placementExpressions orep))))"
        by (rule a)
      show "map_option placementExpressions (getRep h' O')
          = Some (placementExpressions orep @ [stored])"
        using g by simp
      show "getPlacementExpression h' (O', length (placementExpressions orep)) = Some stored"
        using g by (simp add: getPlacementExpression_def)
      show "stored = p\<lparr>owner := Some O',
                        indexInOwner := int (length (placementExpressions orep))\<rparr>"
        by (rule s)
    qed
  qed
  have iff: "(\<exists>f. Some f \<in> set (featureRefs p) \<and> \<not> reaches h f O')
          \<longleftrightarrow> (\<exists>a b c. addPlacementLike h O' p = Some (Inl (PlacementMustBeLocal a b c)))"
  proof
    assume "\<exists>f. Some f \<in> set (featureRefs p) \<and> \<not> reaches h f O'"
    from bad [OF this] show "\<exists>a b c. addPlacementLike h O' p = Some (Inl (PlacementMustBeLocal a b c))"
      by blast
  next
    assume e: "\<exists>a b c. addPlacementLike h O' p = Some (Inl (PlacementMustBeLocal a b c))"
    show "\<exists>f. Some f \<in> set (featureRefs p) \<and> \<not> reaches h f O'"
    proof (rule ccontr)
      assume "\<not> (\<exists>f. Some f \<in> set (featureRefs p) \<and> \<not> reaches h f O')"
      then have "\<forall>f. Some f \<in> set (featureRefs p) \<longrightarrow> reaches h f O'" by blast
      from good [OF this] e show False by auto
    qed
  qed
  from iff bad good
  show "((\<exists>f. Some f \<in> set (featureRefs p) \<and> \<not> reaches h f O')
          \<longleftrightarrow> (\<exists>a b c. addPlacementLike h O' p = Some (Inl (PlacementMustBeLocal a b c))))
     \<and> ((\<exists>f. Some f \<in> set (featureRefs p) \<and> \<not> reaches h f O')
          \<longrightarrow> (\<exists>f nf. Some f \<in> set (featureRefs p) \<and> \<not> reaches h f O'
                \<and> getFullName h f = Some (Inr nf)
                \<and> addPlacementLike h O' p
                    = Some (Inl (PlacementMustBeLocal ''FeatureRep::addPlacementLike''
                                   ownerName nf))))
     \<and> ((\<forall>f. Some f \<in> set (featureRefs p) \<longrightarrow> reaches h f O')
          \<longrightarrow> (\<exists>h' stored.
                addPlacementLike h O' p
                  = Some (Inr (h', (O', length (placementExpressions orep))))
                \<and> map_option placementExpressions (getRep h' O')
                    = Some (placementExpressions orep @ [stored])
                \<and> getPlacementExpression h' (O', length (placementExpressions orep)) = Some stored
                \<and> stored = p\<lparr>owner := Some O',
                              indexInOwner := int (length (placementExpressions orep))\<rparr>))"
    by (intro conjI impI)
qed
theorem addPlacementLike_local_or_error_witness:
  "getRep example_heap (0, [0]) = Some example_A
   \<and> getFullName example_heap (0, [0]) = Some (Inr ''Root/A'')
   \<and> addPlacementLike example_heap (0, [0]) (reference_placement StationPlacementType (0, [1]))
         = Some (Inl (PlacementMustBeLocal ''FeatureRep::addPlacementLike'' ''Root/A'' ''Root/B''))
   \<and> \<not> reaches example_heap (0, [1]) (0, [0])
   \<and> (\<exists>h' stored.
        addPlacementLike example_heap (0, [0])
            (reference_placement StationPlacementType (0, [0, 1]))
          = Some (Inr (h', ((0, [0]), length (placementExpressions example_A))))
        \<and> getPlacementExpression h' ((0, [0]), length (placementExpressions example_A)) = Some stored
        \<and> owner stored = Some (0, [0]))"
proof -
  have a: "getRep example_heap (0, [0]) = Some example_A
    \<and> getFullName example_heap (0, [0]) = Some (Inr ''Root/A'')"
    by code_simp
  have n1: "getFullName example_heap (0, [1]) = Some (Inr ''Root/B'')"
    by code_simp
  have n2: "getFullName example_heap (0, [0, 1]) = Some (Inr ''Root/A/Z'')"
    by code_simp
  have e1: "addPlacementLike example_heap (0, [0]) (reference_placement StationPlacementType (0, [1]))
         = Some (Inl (PlacementMustBeLocal ''FeatureRep::addPlacementLike'' ''Root/A'' ''Root/B''))"
    by code_simp
  have h1: "\<forall>f. Some f \<in> set (featureRefs (reference_placement StationPlacementType (0, [1])))
      \<longrightarrow> (\<exists>nf. getFullName example_heap f = Some (Inr nf))"
    using n1 by (auto simp: reference_placement_def)
  have h2: "\<forall>f. Some f \<in> set (featureRefs (reference_placement StationPlacementType (0, [0, 1])))
      \<longrightarrow> (\<exists>nf. getFullName example_heap f = Some (Inr nf))"
    using n2 by (auto simp: reference_placement_def)
  have r2: "\<forall>f. Some f \<in> set (featureRefs (reference_placement StationPlacementType (0, [0, 1])))
      \<longrightarrow> reaches example_heap f (0, [0])"
  proof -
    have "getParentPtr example_heap (0, [0, 1]) = Some (0, [0])"
      by code_simp
    then have "reaches example_heap (0, [0, 1]) (0, [0])"
      by (rule reaches_step) (rule reaches_self)
    then show ?thesis by (auto simp: reference_placement_def)
  qed
  from addPlacementLike_local_or_error [of example_heap "(0, [0])" example_A "''Root/A''"
      "reference_placement StationPlacementType (0, [1])"] a h1 e1
  have c1: "\<not> reaches example_heap (0, [1]) (0, [0])"
    by (auto simp: reference_placement_def)
  from addPlacementLike_local_or_error [of example_heap "(0, [0])" example_A "''Root/A''"
      "reference_placement StationPlacementType (0, [0, 1])"] a h2 r2
  have c2: "\<exists>h' stored.
            addPlacementLike example_heap (0, [0])
                (reference_placement StationPlacementType (0, [0, 1]))
              = Some (Inr (h', ((0, [0]), length (placementExpressions example_A))))
            \<and> getPlacementExpression h' ((0, [0]), length (placementExpressions example_A)) = Some stored
            \<and> owner stored = Some (0, [0])"
    by auto
  from a e1 c1 c2 show ?thesis
    by (intro conjI) simp_all
qed

section \<open>Acyclicity of placements\<close>

lemmas dependsOn_loop_induct =
  dependsOn_loop.raw_induct [rotated -1, consumes 1, case_names step]

lemma dependsOn_frame:
  "dependsOn_loop h refs F = Some y \<Longrightarrow>
   (\<forall>g grep. g \<noteq> F \<longrightarrow> getRep h g = Some grep \<longrightarrow>
      (\<exists>grep'. getRep h' g = Some grep' \<and> placement grep' = placement grep)) \<Longrightarrow>
   (\<forall>pl pr. getPlacementExpression h pl = Some pr \<longrightarrow>
      getPlacementExpression h' pl = Some pr) \<Longrightarrow>
   y = Inr b \<Longrightarrow>
   dependsOn_loop h' refs F = Some (Inr b)"
proof (induction h refs F y arbitrary: b rule: dependsOn_loop_induct)
  case (step dep h0 refs f y)
  note r = step.prems(1) and p = step.prems(2)
  show ?case
  proof (cases refs)
    case Nil
    with step.hyps step.prems(3) show ?thesis
      by (subst dependsOn_loop.simps) simp
  next
    case (Cons x rest)
    show ?thesis
    proof (cases x)
      case None
      with Cons step.hyps have "dep h0 rest f = Some y" by simp
      from step.IH [OF this r p step.prems(3)] Cons None show ?thesis
        by (subst dependsOn_loop.simps) simp
    next
      case (Some g)
      show ?thesis
      proof (cases "g = f")
        case True
        with Some Cons step.hyps step.prems(3) show ?thesis
          by (subst dependsOn_loop.simps) simp
      next
        case False
        with Some Cons step.hyps step.prems(3) obtain grep where g: "getRep h0 g = Some grep"
          by (auto split: option.splits)
        from r False g obtain grep' where g': "getRep h' g = Some grep'"
          "placement grep' = placement grep" by blast
        show ?thesis
        proof (cases "placement grep")
          case None
          with False Some Cons g step.hyps have "dep h0 rest f = Some y" by simp
          from step.IH [OF this r p step.prems(3)] Cons Some False g' None show ?thesis
            by (subst dependsOn_loop.simps) simp
        next
          case pl: (Some pl)
          with False Some Cons g step.hyps step.prems(3)
          obtain pr where pr: "getPlacementExpression h0 pl = Some pr"
            by (auto split: option.splits)
          with pl False Some Cons g step.hyps
          have e: "Option.bind (dep h0 (featureRefs pr) f)
                (\<lambda>d. case d of Inl e \<Rightarrow> Some (Inl e)
                     | Inr b \<Rightarrow> if b then Some (Inr True) else dep h0 rest f) = Some y"
            by simp
          then obtain d where d: "dep h0 (featureRefs pr) f = Some d"
            and k: "(case d of Inl e \<Rightarrow> Some (Inl e)
                     | Inr b \<Rightarrow> if b then Some (Inr True) else dep h0 rest f) = Some y"
            by (auto simp: bind_eq_Some_conv)
          from k step.prems(3) obtain b' where b': "d = Inr b'"
            by (cases d) auto
          from step.IH [OF d r p b'] have i1: "dependsOn_loop h' (featureRefs pr) f = Some (Inr b')" .
          have unf: "dependsOn_loop h' refs f
              = Option.bind (dependsOn_loop h' (featureRefs pr) f)
                  (\<lambda>d. case d of Inl e \<Rightarrow> Some (Inl e)
                     | Inr b \<Rightarrow> if b then Some (Inr True) else dependsOn_loop h' rest f)"
          proof -
            from p pr have "getPlacementExpression h' pl = Some pr" by blast
            with Cons Some False g' pl show ?thesis
              by (subst dependsOn_loop.simps) simp
          qed
          show ?thesis
          proof (cases b')
            case True
            with k b' step.prems(3) have "b = True" by simp
            with unf i1 True show ?thesis by simp
          next
            case False
            with k b' have "dep h0 rest f = Some y" by simp
            from step.IH [OF this r p step.prems(3)] unf i1 False show ?thesis by simp
          qed
        qed
      qed
    qed
  qed
qed

lemma getPlacementExpression_cong:
  "map_option placementExpressions (getRep h' (fst pl)) = map_option placementExpressions (getRep h (fst pl))
   \<Longrightarrow> getPlacementExpression h' pl = getPlacementExpression h pl"
  by (cases "getRep h (fst pl)"; cases "getRep h' (fst pl)")
    (simp_all add: getPlacementExpression_def)

lemma getPlacementExpression_setPlacement:
  "getPlacementExpression (updRep h a (setPlacement x)) pl = getPlacementExpression h pl"
proof (rule getPlacementExpression_cong, cases "fst pl = a")
  case True
  show "map_option placementExpressions (getRep (updRep h a (setPlacement x)) (fst pl))
      = map_option placementExpressions (getRep h (fst pl))"
  proof (cases "getRep h a")
    case None
    with getRep_updRep_exists [of "setPlacement x" h a a] True show ?thesis by simp
  next
    case (Some r)
    from getRep_updRep_same [OF this] Some True show ?thesis by simp
  qed
next
  case False
  then show "map_option placementExpressions (getRep (updRep h a (setPlacement x)) (fst pl))
      = map_option placementExpressions (getRep h (fst pl))"
    by (intro getRep_updRep_other) simp_all
qed

lemma getPlacementExpression_append:
  assumes c: "getRep h a = Some crep"
    and p: "getPlacementExpression h pl = Some pr"
  shows "getPlacementExpression
      (updRep h a (setPlacementExpressions (placementExpressions crep @ [s]))) pl = Some pr"
proof (cases "fst pl = a")
  case True
  from getRep_updRep_same [OF c, of "setPlacementExpressions (placementExpressions crep @ [s])"]
    True c p
  show ?thesis
    by (auto simp: getPlacementExpression_def nth_append split: if_splits)
next
  case False
  have "map_option placementExpressions
      (getRep (updRep h a (setPlacementExpressions (placementExpressions crep @ [s]))) (fst pl))
      = map_option placementExpressions (getRep h (fst pl))"
    by (rule getRep_updRep_other [OF _ _ False]) simp_all
  from getPlacementExpression_cong [OF this] p show ?thesis by simp
qed

lemma placement_kept:
  assumes k: "\<And>x. subfeatures (g x) = subfeatures x" and q: "\<And>x. placement (g x) = placement x"
    and r: "getRep h b = Some brep"
  shows "\<exists>brep'. getRep (updRep h a g) b = Some brep' \<and> placement brep' = placement brep"
proof (cases "b = a")
  case True
  with getRep_updRep_same [of h a brep g] r q show ?thesis by simp
next
  case False
  have "map_option placement (getRep (updRep h a g) b) = map_option placement (getRep h b)"
    by (rule getRep_updRep_other [OF k _ False]) simp
  with r show ?thesis by auto
qed

lemma bindR_Inr:
  "bindR m k = Some (Inr y) \<longleftrightarrow> (\<exists>x. m = Some (Inr x) \<and> k x = Some (Inr y))"
  by (cases m) (auto simp: bindR_def split: sum.splits)

lemma addPlacementLike_success:
  assumes "addPlacementLike h ca pT = Some (Inr (h1, good))"
  shows "\<exists>crep. getRep h ca = Some crep
      \<and> h1 = updRep h ca (setPlacementExpressions (placementExpressions crep
                @ [setOwner ca (int (length (placementExpressions crep))) (cloneUnowned pT)]))
      \<and> good = (ca, length (placementExpressions crep))"
proof -
  from assms obtain crep where c: "getRep h ca = Some crep"
    by (auto simp: addPlacementLike_def split: option.splits)
  from assms c have "isLimitedToSubtree h pT ca = Some None"
    by (auto simp: addPlacementLike_def bindR_def split: option.splits sum.splits)
  from addPlacementLike_local [OF c this] assms c show ?thesis by simp
qed

lemma place_checks_success:
  assumes "place_checks h1 F good = Some (Inr ())"
  shows "\<exists>gp. getPlacementExpression h1 good = Some gp \<and> dependsOn h1 gp F = Some (Inr False)"
proof -
  from assms obtain gp where g: "getPlacementExpression h1 good = Some gp"
    by (auto simp: place_checks_def split: option.splits)
  from assms g obtain ow where o: "owner gp = Some ow"
    by (auto simp: place_checks_def split: option.splits)
  from assms g o have c: "isConstant gp \<or> ow \<noteq> F"
    by (auto simp: place_checks_def split: if_splits)
  from assms g o c obtain tr where "isFeatureInFeatureTree h1 ow F None = Some (True, tr)"
    by (auto simp: place_checks_def split: option.splits if_splits)
  with assms g o c have "bindR (dependsOn h1 gp F) (\<lambda>d.
      if d then Some (Inl (AssertionFailed ''!good.dependsOn(getMyHandle())''))
      else Some (Inr ())) = Some (Inr ())"
    by (auto simp: place_checks_def)
  then have "dependsOn h1 gp F = Some (Inr False)"
    by (auto simp: bindR_Inr split: if_splits)
  with g show ?thesis by blast
qed

lemma place_success:
  assumes "place conv hook h F p = Some (Inr h')"
  shows "\<exists>rep pT ca h1 good.
      getRep h F = Some rep
      \<and> (if placementType p = requiredPlacementType rep then Some p else conv h F p) = Some pT
      \<and> addPlacementLike h ca pT = Some (Inr (h1, good))
      \<and> place_checks h1 F good = Some (Inr ())
      \<and> h' = hook (updRep h1 F (setPlacement (Some good))) F"
proof -
  from assms obtain rep where rep: "getRep h F = Some rep"
    by (auto simp: place_def split: option.splits)
  from assms rep obtain pT where
    pT: "(if placementType p = requiredPlacementType rep then Some p else conv h F p) = Some pT"
    by (cases "if placementType p = requiredPlacementType rep then Some p else conv h F p")
      (auto simp: place_def bindR_def split: option.splits sum.splits)
  from assms rep pT have ty: "placementType pT = requiredPlacementType rep"
    by (auto simp: place_def split: if_splits)
  define ya where "ya = (case parent rep of Some par \<Rightarrow> par | None \<Rightarrow> F)"
  from assms rep pT ty obtain root where
    r: "findRootFeature h F = Some (Inr root)"
    and k: "(case isLimitedToSubtree h pT root of
          None \<Rightarrow> None
        | Some (Some offender) \<Rightarrow>
            bindR (getFullName h F) (\<lambda>thisName.
            bindR (getFullName h offender) (\<lambda>offenderName.
              Some (Inl (FeatureAndPlacementOnDifferentTrees thisName offenderName))))
        | Some None \<Rightarrow>
            (let youngestAllowed = (case parent rep of Some par \<Rightarrow> par | None \<Rightarrow> F)
             in (case findAncestorFeature h pT youngestAllowed of
               None \<Rightarrow> None
             | Some None \<Rightarrow> Some (Inl (AssertionFailed ''commonAncestor''))
             | Some (Some commonAncestor) \<Rightarrow>
                 bindR (addPlacementLike h commonAncestor pT) (\<lambda>(h1, good).
                 bindR (place_checks h1 F good) (\<lambda>_.
                   Some (Inr (hook (updRep h1 F (setPlacement (Some good))) F))))))) = Some (Inr h')"
    by (auto simp: place_def bindR_Inr)
  from k have lim: "isLimitedToSubtree h pT root = Some None"
    by (auto simp: bindR_def split: option.splits sum.splits)
  with k have "(case findAncestorFeature h pT ya of
               None \<Rightarrow> None
             | Some None \<Rightarrow> Some (Inl (AssertionFailed ''commonAncestor''))
             | Some (Some commonAncestor) \<Rightarrow>
                 bindR (addPlacementLike h commonAncestor pT) (\<lambda>(h1, good).
                 bindR (place_checks h1 F good) (\<lambda>_.
                   Some (Inr (hook (updRep h1 F (setPlacement (Some good))) F))))) = Some (Inr h')"
    by (simp add: ya_def)
  then obtain ca where ca: "findAncestorFeature h pT ya = Some (Some ca)"
    and k2: "bindR (addPlacementLike h ca pT) (\<lambda>(h1, good).
                 bindR (place_checks h1 F good) (\<lambda>_.
                   Some (Inr (hook (updRep h1 F (setPlacement (Some good))) F)))) = Some (Inr h')"
    by (auto split: option.splits)
  from k2 obtain h1 good where a: "addPlacementLike h ca pT = Some (Inr (h1, good))"
    and k3: "bindR (place_checks h1 F good) (\<lambda>_.
                   Some (Inr (hook (updRep h1 F (setPlacement (Some good))) F))) = Some (Inr h')"
    by (auto simp: bindR_Inr)
  from k3 have "place_checks h1 F good = Some (Inr ())"
    and "h' = hook (updRep h1 F (setPlacement (Some good))) F"
    by (auto simp: bindR_Inr)
  with rep pT a show ?thesis by blast
qed

text \<open>
  Claim C8. After every successful call of \<^verbatim>\<open>place\<close> the placement that the Feature
  records does not depend on the Feature; and a placement that (after the reconciliation
  of its category) depends on the Feature is never placed successfully: the call fails or
  does not return.
\<close>

theorem place_never_cyclic:
  "(place conv hook h F p = Some (Inr h')
      \<longrightarrow> (\<exists>h2 good stored. h' = hook h2 F
            \<and> map_option placement (getRep h2 F) = Some (Some good)
            \<and> getPlacementExpression h2 good = Some stored
            \<and> dependsOn h2 stored F = Some (Inr False)))
   \<and> (getRep h F = Some rep
        \<and> (if placementType p = requiredPlacementType rep then Some p else conv h F p) = Some pT
        \<and> dependsOn h pT F = Some (Inr True)
      \<longrightarrow> (\<forall>h'. place conv hook h F p \<noteq> Some (Inr h')))"
proof (intro conjI impI allI)
  assume s: "place conv hook h F p = Some (Inr h')"
  from place_success [OF s] obtain rep pT ca h1 good where
    rep: "getRep h F = Some rep"
    and add: "addPlacementLike h ca pT = Some (Inr (h1, good))"
    and chk: "place_checks h1 F good = Some (Inr ())"
    and h': "h' = hook (updRep h1 F (setPlacement (Some good))) F"
    by blast
  define h2 where "h2 = updRep h1 F (setPlacement (Some good))"
  from addPlacementLike_success [OF add] obtain crep where
    h1: "h1 = updRep h ca (setPlacementExpressions (placementExpressions crep
                @ [setOwner ca (int (length (placementExpressions crep))) (cloneUnowned pT)]))"
    by blast
  from place_checks_success [OF chk] obtain gp where
    gp: "getPlacementExpression h1 good = Some gp" and dep: "dependsOn h1 gp F = Some (Inr False)"
    by blast
  have "getRep h1 F \<noteq> None"
    unfolding h1 using rep by (simp add: getRep_updRep_exists)
  then obtain rep1 where rep1: "getRep h1 F = Some rep1" by blast
  have F2: "getRep h2 F = Some (setPlacement (Some good) rep1)"
    unfolding h2_def by (rule getRep_updRep_same [OF rep1])
  have gp2: "getPlacementExpression h2 good = Some gp"
    unfolding h2_def using gp by (simp add: getPlacementExpression_setPlacement)
  have dep2: "dependsOn h2 gp F = Some (Inr False)"
    unfolding dependsOn_def
  proof (rule dependsOn_frame [of h1 _ F "Inr False"])
    show "dependsOn_loop h1 (featureRefs gp) F = Some (Inr False)"
      using dep by (simp add: dependsOn_def)
    show "\<forall>g grep. g \<noteq> F \<longrightarrow> getRep h1 g = Some grep \<longrightarrow>
        (\<exists>grep'. getRep h2 g = Some grep' \<and> placement grep' = placement grep)"
    proof (intro allI impI)
      fix g grep
      assume n: "g \<noteq> F" and g: "getRep h1 g = Some grep"
      have "map_option placement (getRep h2 g) = map_option placement (getRep h1 g)"
        unfolding h2_def by (rule getRep_updRep_other [OF _ _ n]) simp_all
      with g show "\<exists>grep'. getRep h2 g = Some grep' \<and> placement grep' = placement grep"
        by auto
    qed
    show "\<forall>pl pr. getPlacementExpression h1 pl = Some pr \<longrightarrow>
        getPlacementExpression h2 pl = Some pr"
      by (simp add: h2_def getPlacementExpression_setPlacement)
    show "Inr False = Inr False" ..
  qed
  show "\<exists>h2 good stored. h' = hook h2 F
            \<and> map_option placement (getRep h2 F) = Some (Some good)
            \<and> getPlacementExpression h2 good = Some stored
            \<and> dependsOn h2 stored F = Some (Inr False)"
  proof (intro exI conjI)
    show "h' = hook h2 F" by (simp add: h' h2_def)
    show "map_option placement (getRep h2 F) = Some (Some good)" using F2 by simp
    show "getPlacementExpression h2 good = Some gp" by (rule gp2)
    show "dependsOn h2 gp F = Some (Inr False)" by (rule dep2)
  qed
next
  fix h''
  assume a: "getRep h F = Some rep
        \<and> (if placementType p = requiredPlacementType rep then Some p else conv h F p) = Some pT
        \<and> dependsOn h pT F = Some (Inr True)"
  show "place conv hook h F p \<noteq> Some (Inr h'')"
  proof
    assume s: "place conv hook h F p = Some (Inr h'')"
    from place_success [OF s] a obtain ca h1 good where
      add: "addPlacementLike h ca pT = Some (Inr (h1, good))"
      and chk: "place_checks h1 F good = Some (Inr ())"
      by auto
    from addPlacementLike_success [OF add] obtain crep where
      crep: "getRep h ca = Some crep"
      and h1: "h1 = updRep h ca (setPlacementExpressions (placementExpressions crep
                @ [setOwner ca (int (length (placementExpressions crep))) (cloneUnowned pT)]))"
      and good: "good = (ca, length (placementExpressions crep))"
      by blast
    define stored where
      "stored = setOwner ca (int (length (placementExpressions crep))) (cloneUnowned pT)"
    have y1: "getRep h1 ca
        = Some (setPlacementExpressions (placementExpressions crep @ [stored]) crep)"
      unfolding h1 stored_def by (rule getRep_updRep_same [OF crep])
    then have gp1: "getPlacementExpression h1 good = Some stored"
      by (simp add: getPlacementExpression_def good)
    from place_checks_success [OF chk] gp1 have dep: "dependsOn h1 stored F = Some (Inr False)"
      by auto
    have "dependsOn_loop h1 (featureRefs pT) F = Some (Inr True)"
    proof (rule dependsOn_frame [of h _ F "Inr True"])
      show "dependsOn_loop h (featureRefs pT) F = Some (Inr True)"
        using a by (simp add: dependsOn_def)
      show "\<forall>g grep. g \<noteq> F \<longrightarrow> getRep h g = Some grep \<longrightarrow>
          (\<exists>grep'. getRep h1 g = Some grep' \<and> placement grep' = placement grep)"
        unfolding h1 by (intro allI impI placement_kept) simp_all
      show "\<forall>pl pr. getPlacementExpression h pl = Some pr \<longrightarrow>
          getPlacementExpression h1 pl = Some pr"
        unfolding h1 by (intro allI impI getPlacementExpression_append [OF crep])
      show "Inr True = Inr True" ..
    qed
    moreover have "featureRefs stored = featureRefs pT"
      by (simp add: stored_def setOwner_def cloneUnowned_def)
    ultimately show False
      using dep by (simp add: dependsOn_def)
  qed
qed

theorem place_never_cyclic_witness:
  "(\<exists>h'. place no_conversion no_hook example_heap (0, [0, 1])
            (reference_placement StationPlacementType (0, [1])) = Some (Inr h')
      \<and> (\<exists>h2 good stored. h' = no_hook h2 (0, [0, 1])
            \<and> map_option placement (getRep h2 (0, [0, 1])) = Some (Some good)
            \<and> getPlacementExpression h2 good = Some stored
            \<and> dependsOn h2 stored (0, [0, 1]) = Some (Inr False)))
   \<and> getRep example_heap (0, [0, 1]) = Some (leaf ''Z'' (0, [0]) 1)
   \<and> dependsOn example_heap (reference_placement StationPlacementType (0, [0, 1])) (0, [0, 1])
       = Some (Inr True)
   \<and> place no_conversion no_hook example_heap (0, [0, 1])
        (reference_placement StationPlacementType (0, [0, 1]))
       = Some (Inl (AssertionFailed ''!good.dependsOn(getMyHandle())''))
   \<and> (\<forall>h'. place no_conversion no_hook example_heap (0, [0, 1])
              (reference_placement StationPlacementType (0, [0, 1])) \<noteq> Some (Inr h'))"
proof -
  have "(case place no_conversion no_hook example_heap (0, [0, 1])
            (reference_placement StationPlacementType (0, [1])) of
          Some (Inr h') \<Rightarrow> True | _ \<Rightarrow> False)"
    by code_simp
  then obtain h' where s: "place no_conversion no_hook example_heap (0, [0, 1])
            (reference_placement StationPlacementType (0, [1])) = Some (Inr h')"
    by (auto split: option.splits sum.splits)
  have a: "getRep example_heap (0, [0, 1]) = Some (leaf ''Z'' (0, [0]) 1)"
    by code_simp
  have b: "(if placementType (reference_placement StationPlacementType (0, [0, 1]))
              = requiredPlacementType (leaf ''Z'' (0, [0]) 1)
            then Some (reference_placement StationPlacementType (0, [0, 1]))
            else no_conversion example_heap (0, [0, 1])
                   (reference_placement StationPlacementType (0, [0, 1])))
       = Some (reference_placement StationPlacementType (0, [0, 1]))"
    by code_simp
  have c: "dependsOn example_heap (reference_placement StationPlacementType (0, [0, 1])) (0, [0, 1])
       = Some (Inr True)"
    by code_simp
  have d: "place no_conversion no_hook example_heap (0, [0, 1])
        (reference_placement StationPlacementType (0, [0, 1]))
       = Some (Inl (AssertionFailed ''!good.dependsOn(getMyHandle())''))"
    by code_simp
  from place_never_cyclic [of no_conversion no_hook example_heap "(0, [0, 1])"
      "reference_placement StationPlacementType (0, [1])" h' "leaf ''Z'' (0, [0]) 1"
      "reference_placement StationPlacementType (0, [0, 1])"] s
  have e: "\<exists>h2 good stored. h' = no_hook h2 (0, [0, 1])
            \<and> map_option placement (getRep h2 (0, [0, 1])) = Some (Some good)
            \<and> getPlacementExpression h2 good = Some stored
            \<and> dependsOn h2 stored (0, [0, 1]) = Some (Inr False)"
    by blast
  from place_never_cyclic [of no_conversion no_hook example_heap "(0, [0, 1])"
      "reference_placement StationPlacementType (0, [0, 1])" h' "leaf ''Z'' (0, [0]) 1"
      "reference_placement StationPlacementType (0, [0, 1])"] a b c
  have f: "\<forall>h'. place no_conversion no_hook example_heap (0, [0, 1])
              (reference_placement StationPlacementType (0, [0, 1])) \<noteq> Some (Inr h')"
    by blast
  from s e a c d f show ?thesis
    by blast
qed

section \<open>Properties of nodes and of transformations of nodes\<close>

lemma feature_rep_sel_simps [simp]:
  "setSubfeatures (subfeatures x) x = x"
  "setSubfeatures s (setSubfeatures s' x) = setSubfeatures s x"
  by (cases x; simp)+

lemma all_nodes_unfold:
  "all_nodes Q p f \<longleftrightarrow> Q p f \<and> all_nodes_list Q p 0 (subfeatures f)"
  by (cases f) simp

lemma all_nodes_list_nth:
  "all_nodes_list Q p k cs \<longleftrightarrow> (\<forall>i<length cs. all_nodes Q (p @ [k + i]) (cs ! i))"
proof (induction cs arbitrary: k)
  case Nil
  show ?case by simp
next
  case (Cons c cs)
  show ?case
  proof
    assume a: "all_nodes_list Q p k (c # cs)"
    show "\<forall>i<length (c # cs). all_nodes Q (p @ [k + i]) ((c # cs) ! i)"
    proof (intro allI impI)
      fix i assume "i < length (c # cs)"
      with a Cons.IH [of "Suc k"] show "all_nodes Q (p @ [k + i]) ((c # cs) ! i)"
        by (cases i) auto
    qed
  next
    assume a: "\<forall>i<length (c # cs). all_nodes Q (p @ [k + i]) ((c # cs) ! i)"
    then have "all_nodes Q (p @ [k]) c" by force
    moreover from a have "\<forall>i<length cs. all_nodes Q (p @ [Suc k + i]) (cs ! i)" by force
    ultimately show "all_nodes_list Q p k (c # cs)"
      using Cons.IH [of "Suc k"] by simp
  qed
qed

lemma all_nodes_at:
  "all_nodes Q p f \<Longrightarrow> subfeature_at f rel = Some x \<Longrightarrow> Q (p @ rel) x"
proof (induction rel arbitrary: p f)
  case Nil
  then show ?case by (simp add: all_nodes_unfold)
next
  case (Cons i rel)
  from Cons.prems(2) have i: "i < length (subfeatures f)"
    and s: "subfeature_at (subfeatures f ! i) rel = Some x"
    by (simp_all split: if_splits)
  from Cons.prems(1) i have "all_nodes Q (p @ [i]) (subfeatures f ! i)"
    by (simp add: all_nodes_unfold [of Q p f] all_nodes_list_nth)
  from Cons.IH [OF this s] show ?case by simp
qed

lemma all_nodes_sub:
  "all_nodes Q p f \<Longrightarrow> subfeature_at f rel = Some x \<Longrightarrow> all_nodes Q (p @ rel) x"
proof (induction rel arbitrary: p f)
  case Nil
  then show ?case by simp
next
  case (Cons i rel)
  from Cons.prems(2) have i: "i < length (subfeatures f)"
    and s: "subfeature_at (subfeatures f ! i) rel = Some x"
    by (simp_all split: if_splits)
  from Cons.prems(1) i have "all_nodes Q (p @ [i]) (subfeatures f ! i)"
    by (simp add: all_nodes_unfold [of Q p f] all_nodes_list_nth)
  from Cons.IH [OF this s] show ?case by simp
qed

lemma all_nodes_intro:
  "(\<And>rel x. subfeature_at f rel = Some x \<Longrightarrow> Q (p @ rel) x) \<Longrightarrow> all_nodes Q p f"
  and all_nodes_list_intro:
  "(\<And>j rel x. j < length cs \<Longrightarrow> subfeature_at (cs ! j) rel = Some x \<Longrightarrow> Q (p @ [i + j] @ rel) x)
     \<Longrightarrow> all_nodes_list Q p i cs"
proof (induction Q p f and Q p i cs rule: all_nodes_all_nodes_list.induct)
  case (1 Q p nm tn rt par idx subs pes pvs pl)
  let ?f = "FeatureRep nm tn rt par idx subs pes pvs pl"
  have "Q p ?f" using "1.prems" [of "[]" ?f] by simp
  moreover have "all_nodes_list Q p 0 subs"
  proof (rule "1.IH")
    fix j rel x
    assume "j < length subs" and "subfeature_at (subs ! j) rel = Some x"
    then have "subfeature_at ?f (j # rel) = Some x" by simp
    from "1.prems" [OF this] show "Q (p @ [0 + j] @ rel) x" by simp
  qed
  ultimately show ?case by simp
next
  case (2 Q p i)
  show ?case by simp
next
  case (3 Q p i c cs)
  have "all_nodes Q (p @ [i]) c"
  proof (rule "3.IH"(1))
    fix rel x assume "subfeature_at c rel = Some x"
    with "3.prems" [of 0 rel x] show "Q ((p @ [i]) @ rel) x" by simp
  qed
  moreover have "all_nodes_list Q p (Suc i) cs"
  proof (rule "3.IH"(2))
    fix j rel x
    assume "j < length cs" and "subfeature_at (cs ! j) rel = Some x"
    with "3.prems" [of "Suc j" rel x] show "Q (p @ [Suc i + j] @ rel) x" by simp
  qed
  ultimately show ?case by simp
qed

lemma map_nodes_unfold:
  "map_nodes g p f = setSubfeatures (map_nodes_list g p 0 (subfeatures f)) (g p f)"
  by (cases f) simp

lemma map_nodes_list_length [simp]: "length (map_nodes_list g p k cs) = length cs"
  by (induction cs arbitrary: k) simp_all

lemma map_nodes_list_nth:
  "i < length cs \<Longrightarrow> map_nodes_list g p k cs ! i = map_nodes g (p @ [k + i]) (cs ! i)"
proof (induction cs arbitrary: k i)
  case Nil
  then show ?case by simp
next
  case (Cons c cs)
  show ?case
  proof (cases i)
    case 0
    then show ?thesis by simp
  next
    case (Suc j)
    with Cons.prems have "j < length cs" by simp
    from Cons.IH [OF this, of "Suc k"] Suc show ?thesis by simp
  qed
qed

lemma map_nodes_subfeatures [simp]:
  "subfeatures (map_nodes g p f) = map_nodes_list g p 0 (subfeatures f)"
  by (simp add: map_nodes_unfold)

lemma map_nodes_at:
  "subfeature_at (map_nodes g p f) rel = map_option (map_nodes g (p @ rel)) (subfeature_at f rel)"
proof (induction rel arbitrary: p f)
  case Nil
  show ?case by simp
next
  case (Cons i rel)
  show ?case
  proof (cases "i < length (subfeatures f)")
    case True
    with Cons.IH [of "p @ [i]" "subfeatures f ! i"] show ?thesis
      by (simp add: map_nodes_list_nth)
  next
    case False
    then show ?thesis by simp
  qed
qed

lemma map_nodes_sel:
  "name (map_nodes g p f) = name (g p f)"
  "featureTypeName (map_nodes g p f) = featureTypeName (g p f)"
  "requiredPlacementType (map_nodes g p f) = requiredPlacementType (g p f)"
  "parent (map_nodes g p f) = parent (g p f)"
  "indexInParent (map_nodes g p f) = indexInParent (g p f)"
  "placementExpressions (map_nodes g p f) = placementExpressions (g p f)"
  "placementValues (map_nodes g p f) = placementValues (g p f)"
  "placement (map_nodes g p f) = placement (g p f)"
  by (simp_all add: map_nodes_unfold)
section \<open>Correspondence between two trees of the same shape\<close>

lemma same_shape_unfold: "same_shape f g = same_shape_list (subfeatures f) (subfeatures g)"
  by (cases f) simp

lemma same_shape_list_nth:
  "same_shape_list cs ds \<longleftrightarrow> length cs = length ds \<and> (\<forall>i<length cs. same_shape (cs ! i) (ds ! i))"
proof (induction cs arbitrary: ds)
  case Nil
  show ?case by auto
next
  case (Cons c cs)
  show ?case
  proof (cases ds)
    case Nil
    then show ?thesis by simp
  next
    case (Cons d ds')
    show ?thesis
      unfolding Cons using Cons.IH [of ds']
      by (auto simp: less_Suc_eq_0_disj)
  qed
qed

lemma same_shape_at:
  "same_shape f g \<Longrightarrow> subfeature_at f rel \<noteq> None \<Longrightarrow> subfeature_at g rel \<noteq> None"
proof (induction rel arbitrary: f g)
  case Nil
  show ?case by simp
next
  case (Cons i rel)
  from Cons.prems(2) have i: "i < length (subfeatures f)"
    and s: "subfeature_at (subfeatures f ! i) rel \<noteq> None"
    by (simp_all split: if_splits)
  from Cons.prems(1) i have l: "i < length (subfeatures g)"
    and sh: "same_shape (subfeatures f ! i) (subfeatures g ! i)"
    by (simp_all add: same_shape_unfold [of f g] same_shape_list_nth)
  from Cons.IH [OF sh s] l show ?case by simp
qed

lemma replay_follow:
  "k \<le> length tr \<Longrightarrow> replay_loop h tr k a = follow_down h a (rev (take k tr))"
proof (induction k arbitrary: a)
  case 0
  show ?case by simp
next
  case (Suc k)
  then have t: "take (Suc k) tr = take k tr @ [tr ! k]"
    by (simp add: take_Suc_conv_app_nth)
  show ?case
  proof (cases "getSubfeature h a (tr ! k)")
    case (Inl e)
    then show ?thesis by (simp add: t)
  next
    case (Inr c)
    with Suc.IH [of c] Suc.prems show ?thesis by (simp add: t)
  qed
qed

lemma path_loop_up_total:
  "parents_consistent h \<Longrightarrow> \<exists>chain. path_loop_up h (Some f) acc = Some chain"
proof (induction "length (snd f)" arbitrary: f acc rule: less_induct)
  case less
  show ?case
  proof (cases "getParentPtr h f")
    case None
    then show ?thesis by (simp add: path_loop_up_Some path_loop_up_None)
  next
    case (Some p)
    then obtain rep where r: "getRep h f = Some rep" "parent rep = Some p"
      by (auto simp: getParentPtr_Some)
    from consistent_parent [OF less.prems r]
    have "snd f \<noteq> []" "p = (fst f, butlast (snd f))" by simp_all
    then have "length (snd p) < length (snd f)" by simp
    from less.hyps [OF this less.prems, of "acc @ [f]"] Some show ?thesis
      by (simp add: path_loop_up_Some)
  qed
qed

lemma reaches_in_subtree:
  "reaches h f R \<Longrightarrow> parents_consistent h \<Longrightarrow>
   in_subtree R f \<and> (f = R \<or> getRep h f \<noteq> None)"
proof (induction rule: reaches.induct)
  case (reaches_self f)
  show ?case by (simp add: in_subtree_def)
next
  case (reaches_step f p root)
  from reaches_step.hyps(1) obtain rep where r: "getRep h f = Some rep" "parent rep = Some p"
    by (auto simp: getParentPtr_Some)
  from consistent_parent [OF reaches_step.prems r]
  have a: "snd f \<noteq> []" "p = (fst f, butlast (snd f))" by simp_all
  from reaches_step.IH [OF reaches_step.prems] have "in_subtree root p" by simp
  with a have "fst f = fst root" and "prefix (snd root) (butlast (snd f))"
    by (simp_all add: in_subtree_def)
  then have "prefix (snd root) (snd f)"
    using a(1) by (metis append_butlast_last_id prefix_order.trans prefixI)
  with \<open>fst f = fst root\<close> r show ?case by (simp add: in_subtree_def)
qed

lemma in_subtree_reaches:
  "parents_consistent h \<Longrightarrow> getRep h (r, q @ rel) \<noteq> None \<Longrightarrow> reaches h (r, q @ rel) (r, q)"
proof (induction rel rule: rev_induct)
  case Nil
  show ?case by (simp add: reaches_self)
next
  case (snoc i rel)
  from snoc.prems(2) obtain c where c: "getRep h (r, (q @ rel) @ [i]) = Some c" by auto
  from consistent_child [OF snoc.prems(1) c] have "parent c = Some (r, q @ rel)" by simp
  with c have p: "getParentPtr h (r, q @ rel @ [i]) = Some (r, q @ rel)"
    by (simp add: getParentPtr_def)
  from c getRep_child [of h r "q @ rel" i c] have "getRep h (r, q @ rel) \<noteq> None"
    by auto
  from snoc.IH [OF snoc.prems(1) this] p show ?case
    by (simp add: reaches_step)
qed

lemma reaches_iff_in_subtree:
  assumes "parents_consistent h" and "getRep h R \<noteq> None"
  shows "reaches h f R \<longleftrightarrow> getRep h f \<noteq> None \<and> in_subtree R f"
proof
  assume "reaches h f R"
  from reaches_in_subtree [OF this assms(1)] assms(2)
  show "getRep h f \<noteq> None \<and> in_subtree R f" by auto
next
  assume a: "getRep h f \<noteq> None \<and> in_subtree R f"
  then obtain rel where "snd f = snd R @ rel" and "fst f = fst R"
    by (auto simp: in_subtree_def prefix_def)
  then have f: "f = (fst R, snd R @ rel)" by (metis prod.collapse)
  with a have "getRep h (fst R, snd R @ rel) \<noteq> None" by simp
  from in_subtree_reaches [OF assms(1) this] f show "reaches h f R" by simp
qed

lemma findCorrespondingFeature_relocates:
  assumes c: "parents_consistent h"
    and R: "getRep h R = Some rrep" and N: "getRep h N = Some nrep"
    and sh: "\<And>rel. subfeature_at rrep rel \<noteq> None \<Longrightarrow> subfeature_at nrep rel \<noteq> None"
  shows "findCorrespondingFeature h R f N
    = Some (Inr (if getRep h f \<noteq> None \<and> in_subtree R f
                 then Some (fst N, snd N @ drop (length (snd R)) (snd f)) else None))"
proof -
  from path_loop_up_total [OF c, of f "[]"] obtain chain where
    "path_loop_up h (Some f) [] = Some chain" by blast
  from isInTree_decides [OF this, of R "Some []"] obtain tr where
    t: "isFeatureInFeatureTree h R f (Some []) = Some (reaches h f R, tr)" by blast
  have iff: "reaches h f R \<longleftrightarrow> getRep h f \<noteq> None \<and> in_subtree R f"
    using reaches_iff_in_subtree [OF c] R by simp
  show ?thesis
  proof (cases "reaches h f R")
    case False
    with t have "isFeatureInFeatureTree h R f (Some []) = Some (False, tr)" by simp
    then have "findCorrespondingFeature h R f N = Some (Inr None)"
      by (simp add: findCorrespondingFeature_def)
    moreover from False iff have "\<not> (getRep h f \<noteq> None \<and> in_subtree R f)" by blast
    ultimately show ?thesis by simp
  next
    case True
    with t have l: "isInTree_loop h R f (Some []) = Some (True, tr)"
      by (simp add: isFeatureInFeatureTree_def)
    obtain trace where tr: "tr = Some trace"
    proof (cases tr)
      case None
      have "\<And>y. isInTree_loop h R f trace = Some y \<Longrightarrow> trace \<noteq> None \<Longrightarrow> snd y \<noteq> None" for trace
      proof -
        fix y trace
        show "isInTree_loop h R f trace = Some y \<Longrightarrow> trace \<noteq> None \<Longrightarrow> snd y \<noteq> None"
        proof (induction h R f trace y rule: isInTree_loop_induct)
          case (step loop h oldp fp trace y)
          then show ?case
            by (auto split: if_splits option.splits)
        qed
      qed
      from this [OF l] None show ?thesis by simp
    next
      case (Some trace)
      then show ?thesis by (rule that)
    qed
    from isInTree_trace [OF l c refl] tr obtain rel where
      rel: "trace = rev (map int rel)" "f = (fst R, snd R @ rel)"
      by auto
    from True iff rel(2) R have "subfeature_at rrep rel \<noteq> None"
      by (simp add: getRep_append)
    from sh [OF this] N have "getRep h (fst N, snd N @ rel) \<noteq> None"
      by (simp add: getRep_append)
    from follow_down_path [OF this]
    have "follow_down h N (map int rel) = Inr (fst N, snd N @ rel)" by simp
    then have "replay_loop h trace (length trace) N = Inr (fst N, snd N @ rel)"
      by (simp add: replay_follow rel(1) rev_map)
    moreover from t True tr
    have "isFeatureInFeatureTree h R f (Some []) = Some (True, Some trace)" by simp
    ultimately have "findCorrespondingFeature h R f N = Some (Inr (Some (fst N, snd N @ rel)))"
      by (simp add: findCorrespondingFeature_def)
    moreover from True iff have "getRep h f \<noteq> None \<and> in_subtree R f" by blast
    moreover from rel(2) have "drop (length (snd R)) (snd f) = rel" by simp
    ultimately show ?thesis by simp
  qed
qed

section \<open>The pass that repairs parents and owners\<close>

lemma reparent_expressions_ok:
  "list_all (\<lambda>(i, e). owner e = Some ow \<and> indexInOwner e = int i) (enumerate k ps) \<Longrightarrow>
   reparent_expressions me k ps = Inr (map (\<lambda>(i, e). setOwner me (int i) e) (enumerate k ps))"
  by (induction ps arbitrary: k) simp_all

lemma reparent_values_ok:
  "list_all (\<lambda>(i, v). valueOwner v = Some ow \<and> valueIndexInOwner v = int i) (enumerate k vs) \<Longrightarrow>
   reparent_values me k vs = Inr (map (\<lambda>(i, v). setValueOwner me (int i) v) (enumerate k vs))"
  by (induction vs arbitrary: k) simp_all

lemma parents_ok_unfold: "parents_ok a f = parents_ok_list a 0 (subfeatures f)"
  by (cases f) simp

lemma map_nodes_reparent_node:
  "map_nodes (reparent_node n) (q @ [i]) c =
     FeatureRep (name c) (featureTypeName c) (requiredPlacementType c) (Some (n, q)) (int i)
       (map_nodes_list (reparent_node n) (q @ [i]) 0 (subfeatures c))
       (map (\<lambda>(j, e). setOwner (n, q @ [i]) (int j) e) (enumerate 0 (placementExpressions c)))
       (map (\<lambda>(j, v). setValueOwner (n, q @ [i]) (int j) v) (enumerate 0 (placementValues c)))
       (placement c)"
  by (simp add: map_nodes_unfold reparent_node_def)

lemma reparentMyChildren_ok:
  "parents_ok a y \<Longrightarrow> all_nodes (node_owns r) p y \<Longrightarrow>
   reparentMyChildren me y =
     Inr (FeatureRep (name y) (featureTypeName y) (requiredPlacementType y)
            (parent y) (indexInParent y)
            (map_nodes_list (reparent_node (fst me)) (snd me) 0 (subfeatures y))
            (map (\<lambda>(i, e). setOwner me (int i) e) (enumerate 0 (placementExpressions y)))
            (map (\<lambda>(i, v). setValueOwner me (int i) v) (enumerate 0 (placementValues y)))
            (placement y))"
  and reparent_subfeatures_ok:
  "parents_ok_list a i cs \<Longrightarrow> all_nodes_list (node_owns r) p i cs \<Longrightarrow>
   reparent_subfeatures me i cs = Inr (map_nodes_list (reparent_node (fst me)) (snd me) i cs)"
proof (induction me y and me i cs arbitrary: a p and a p
    rule: reparentMyChildren_reparent_subfeatures.induct)
  case (1 me nm tn rt par idx subs pes pvs pl)
  from "1.prems" have po: "parents_ok_list a 0 subs"
    and ow: "node_owns r p (FeatureRep nm tn rt par idx subs pes pvs pl)"
    and al: "all_nodes_list (node_owns r) p 0 subs"
    by simp_all
  from "1.IH" [OF po al]
  have s: "reparent_subfeatures me 0 subs
      = Inr (map_nodes_list (reparent_node (fst me)) (snd me) 0 subs)" .
  from ow have le: "list_all (\<lambda>(i, e). owner e = Some (r, p) \<and> indexInOwner e = int i)
      (enumerate 0 pes)"
    and lv: "list_all (\<lambda>(i, v). valueOwner v = Some (r, p) \<and> valueIndexInOwner v = int i)
      (enumerate 0 pvs)"
    by (simp_all add: node_owns_def)
  have e: "reparent_expressions me 0 pes
      = Inr (map (\<lambda>(i, e). setOwner me (int i) e) (enumerate 0 pes))"
    using le by (rule reparent_expressions_ok)
  have v: "reparent_values me 0 pvs
      = Inr (map (\<lambda>(i, v). setValueOwner me (int i) v) (enumerate 0 pvs))"
    using lv by (rule reparent_values_ok)
  from s e v show ?case by simp
next
  case (2 me i)
  show ?case by simp
next
  case (3 me i c cs)
  from "3.prems"(1) have pc: "parent c = Some a" and ic: "indexInParent c = int i"
    and po: "parents_ok (fst a, snd a @ [i]) c" and pl: "parents_ok_list a (Suc i) cs"
    by simp_all
  from "3.prems"(2) have ac: "all_nodes (node_owns r) (p @ [i]) c"
    and al: "all_nodes_list (node_owns r) p (Suc i) cs"
    by simp_all
  from pc have n1: "\<not> parent c = None" by simp
  from ic have n2: "\<not> indexInParent c \<noteq> int i" by simp
  from "3.IH"(1) [OF n1 n2 po ac]
  have c1: "reparentMyChildren (fst me, snd me @ [i]) c =
     Inr (FeatureRep (name c) (featureTypeName c) (requiredPlacementType c)
            (parent c) (indexInParent c)
            (map_nodes_list (reparent_node (fst me)) (snd me @ [i]) 0 (subfeatures c))
            (map (\<lambda>(j, e). setOwner (fst me, snd me @ [i]) (int j) e)
               (enumerate 0 (placementExpressions c)))
            (map (\<lambda>(j, v). setValueOwner (fst me, snd me @ [i]) (int j) v)
               (enumerate 0 (placementValues c)))
            (placement c))"
    by simp
  from "3.IH"(2) [OF n1 n2 c1 pl al]
  have c2: "reparent_subfeatures me (Suc i) cs
      = Inr (map_nodes_list (reparent_node (fst me)) (snd me) (Suc i) cs)" .
  from pc ic c1 c2 show ?case
    by (simp add: map_nodes_reparent_node)
qed

lemma clearParent_sel [simp]:
  "name (clearParent x) = name x"
  "featureTypeName (clearParent x) = featureTypeName x"
  "requiredPlacementType (clearParent x) = requiredPlacementType x"
  "parent (clearParent x) = None"
  "indexInParent (clearParent x) = - 1"
  "subfeatures (clearParent x) = subfeatures x"
  "placementExpressions (clearParent x) = placementExpressions x"
  "placementValues (clearParent x) = placementValues x"
  "placement (clearParent x) = placement x"
  by (cases x; simp)+

lemma reparent_clone:
  assumes "parents_ok a rep" and "all_nodes (node_owns r) p rep"
  shows "reparentMyChildren (n, []) (clearParent rep) = Inr (map_nodes (reparent_node n) [] rep)"
proof -
  have "parents_ok a (clearParent rep)"
    using assms(1) by (simp add: parents_ok_unfold [of a])
  moreover have "all_nodes (node_owns r) p (clearParent rep)"
    using assms(2) by (simp add: all_nodes_unfold [of _ p] node_owns_def)
  ultimately have "reparentMyChildren (n, []) (clearParent rep) =
     Inr (FeatureRep (name rep) (featureTypeName rep) (requiredPlacementType rep) None (- 1)
            (map_nodes_list (reparent_node n) [] 0 (subfeatures rep))
            (map (\<lambda>(i, e). setOwner (n, []) (int i) e) (enumerate 0 (placementExpressions rep)))
            (map (\<lambda>(i, v). setValueOwner (n, []) (int i) v) (enumerate 0 (placementValues rep)))
            (placement rep))"
    using reparentMyChildren_ok [of a "clearParent rep" r p "(n, [])"] by simp
  then show ?thesis
    by (simp add: map_nodes_unfold [of _ "[]" rep] reparent_node_def)
qed

lemma parents_ok_map_nodes:
  "parents_ok (n, q) (map_nodes (reparent_node n) q y)"
  and parents_ok_list_map_nodes:
  "parents_ok_list (n, q) i (map_nodes_list (reparent_node n) q i cs)"
proof (induction "reparent_node n" q y and "reparent_node n" q i cs
    rule: map_nodes_map_nodes_list.induct)
  case (1 p nm tn rt par idx subs pes pvs pl)
  then show ?case by (simp add: parents_ok_unfold [of "(n, p)"])
next
  case (2 p i)
  show ?case by simp
next
  case (3 p i c cs)
  then show ?case by (simp add: map_nodes_reparent_node)
qed

lemma roots_ok_update:
  "roots_ok k hs \<Longrightarrow> n < length hs \<Longrightarrow> parent c = None \<Longrightarrow> parents_ok (k + n, []) c \<Longrightarrow>
   roots_ok k (hs[n := Some c])"
proof (induction k hs arbitrary: n rule: roots_ok.induct)
  case (1 r)
  then show ?case by simp
next
  case (2 r hs)
  then show ?case by (cases n) auto
next
  case (3 r t hs)
  then show ?case by (cases n) auto
qed

lemma getRep_root_update:
  "n < length h \<Longrightarrow>
   getRep (h[n := Some c]) a = (if fst a = n then subfeature_at c (snd a) else getRep h a)"
  by (auto simp: getRep_def)

lemma setting_fresh:
  assumes "clone_setting h T n rep"
  shows "fst T \<noteq> n" and "\<And>a. getRep h a \<noteq> None \<Longrightarrow> fst a \<noteq> n"
proof -
  show "getRep h a \<noteq> None \<Longrightarrow> fst a \<noteq> n" for a
    using assms by (auto simp: clone_setting_def getRep_def)
  from this [of T] assms show "fst T \<noteq> n"
    by (auto simp: clone_setting_def)
qed

lemma reparented_getRep:
  assumes "clone_setting h T n rep"
  shows "getRep (reparented_heap h n rep) a
    = (if fst a = n then map_option (map_nodes (reparent_node n) (snd a)) (subfeature_at rep (snd a))
       else getRep h a)"
  using assms
  by (simp add: reparented_heap_def clone_setting_def getRep_root_update map_nodes_at)

lemma reparented_old:
  assumes "clone_setting h T n rep" and "getRep h a \<noteq> None"
  shows "getRep (reparented_heap h n rep) a = getRep h a"
  using reparented_getRep [OF assms(1)] setting_fresh(2) [OF assms] by simp

lemma reparented_consistent:
  assumes "clone_setting h T n rep"
  shows "parents_consistent (reparented_heap h n rep)"
proof -
  from assms have r: "roots_ok 0 h" and n: "n < length h"
    by (simp_all add: clone_setting_def parents_consistent_def)
  have "parent (map_nodes (reparent_node n) [] rep) = None"
    by (simp add: map_nodes_sel reparent_node_def)
  moreover have "parents_ok (0 + n, []) (map_nodes (reparent_node n) [] rep)"
    using parents_ok_map_nodes [of n "[]" rep] by simp
  ultimately show ?thesis
    unfolding parents_consistent_def reparented_heap_def
    by (rule roots_ok_update [OF r n])
qed

lemma reparented_correspondence:
  assumes s: "clone_setting h T n rep"
  shows "findCorrespondingFeature (reparented_heap h n rep) T f (n, [])
    = Some (Inr (remap_feature h T n (Some f)))"
proof -
  let ?h1 = "reparented_heap h n rep"
  from s have T: "getRep h T = Some rep" by (simp add: clone_setting_def)
  then have T1: "getRep ?h1 T = Some rep"
    using reparented_old [OF s, of T] by simp
  have N1: "getRep ?h1 (n, []) = Some (map_nodes (reparent_node n) [] rep)"
    by (simp add: reparented_getRep [OF s])
  have sh: "subfeature_at rep rel \<noteq> None \<Longrightarrow>
      subfeature_at (map_nodes (reparent_node n) [] rep) rel \<noteq> None" for rel
    by (simp add: map_nodes_at)
  have e: "getRep ?h1 f \<noteq> None \<and> in_subtree T f \<longleftrightarrow> getRep h f \<noteq> None \<and> in_subtree T f"
    using setting_fresh(1) [OF s] reparented_getRep [OF s, of f]
    by (auto simp: in_subtree_def)
  from findCorrespondingFeature_relocates [OF reparented_consistent [OF s] T1 N1 sh, of f] e
  show ?thesis
    by (simp add: remap_feature_def relocate_def)
qed

lemma remap_None [simp]:
  "remap_feature h T n None = None" "remap_slot T n None = None"
  by (simp_all add: remap_feature_def remap_slot_def)

lemma repair_refs_remap:
  assumes s: "clone_setting h T n rep"
  shows "repair_refs (reparented_heap h n rep) T (n, []) refs
    = Some (Inr (map (remap_feature h T n) refs))"
proof (induction refs)
  case Nil
  show ?case by simp
next
  case (Cons r refs)
  show ?case
  proof (cases r)
    case None
    with Cons show ?thesis by (simp add: bindR_def)
  next
    case (Some f)
    with Cons reparented_correspondence [OF s, of f] show ?thesis
      by (simp add: bindR_def)
  qed
qed

lemma list_all_enumerate:
  "list_all (\<lambda>(i, e). P i e) (enumerate k xs) \<longleftrightarrow> (\<forall>i<length xs. P (k + i) (xs ! i))"
  by (auto simp: list_all_length nth_enumerate_eq)

lemma roots_own_nth:
  "roots_own k hs \<Longrightarrow> i < length hs \<Longrightarrow> hs ! i = Some t \<Longrightarrow> all_nodes (node_owns (k + i)) [] t"
proof (induction k hs arbitrary: i rule: roots_own.induct)
  case (1 r)
  then show ?case by simp
next
  case (2 r hs)
  then show ?case by (cases i) auto
next
  case (3 r t' hs)
  then show ?case by (cases i) auto
qed

lemma owners_node:
  assumes "owners_consistent h" and "getRep h a = Some y"
  shows "node_owns (fst a) (snd a) y"
proof -
  from assms(2) obtain t where t: "fst a < length h" "h ! fst a = Some t"
    and s: "subfeature_at t (snd a) = Some y"
    by (auto simp: getRep_def split: if_splits option.splits)
  from roots_own_nth [of 0 h "fst a" t] assms(1) t
  have "all_nodes (node_owns (fst a)) [] t"
    by (simp add: owners_consistent_def)
  from all_nodes_at [OF this s] show ?thesis by simp
qed

lemma owners_expression:
  assumes "owners_consistent h" and "getPlacementExpression h pl = Some pr"
  shows "owner pr = Some (fst pl) \<and> indexInOwner pr = int (snd pl)"
proof -
  from assms(2) obtain y where y: "getRep h (fst pl) = Some y"
    and i: "snd pl < length (placementExpressions y)" and p: "pr = placementExpressions y ! snd pl"
    by (auto simp: getPlacementExpression_def split: option.splits if_splits)
  from owners_node [OF assms(1) y]
  have "\<forall>i<length (placementExpressions y).
      owner (placementExpressions y ! i) = Some (fst (fst pl), snd (fst pl))
      \<and> indexInOwner (placementExpressions y ! i) = int (0 + i)"
    by (simp add: node_owns_def list_all_enumerate)
  with i p show ?thesis by simp
qed

lemma owners_value:
  assumes "owners_consistent h" and "getPlacementValue h v = Some vr"
  shows "valueOwner vr = Some (fst v) \<and> valueIndexInOwner vr = int (snd v)"
proof -
  from assms(2) obtain y where y: "getRep h (fst v) = Some y"
    and i: "snd v < length (placementValues y)" and p: "vr = placementValues y ! snd v"
    by (auto simp: getPlacementValue_def split: option.splits if_splits)
  from owners_node [OF assms(1) y]
  have "\<forall>i<length (placementValues y).
      valueOwner (placementValues y ! i) = Some (fst (fst v), snd (fst v))
      \<and> valueIndexInOwner (placementValues y ! i) = int (0 + i)"
    by (simp add: node_owns_def list_all_enumerate)
  with i p show ?thesis by simp
qed

lemma subtree_node:
  assumes "getRep h T = Some rep" and "in_subtree T a"
  shows "getRep h a = subfeature_at rep (drop (length (snd T)) (snd a))"
proof -
  from assms(2) obtain rel where "snd a = snd T @ rel" and f: "fst a = fst T"
    by (auto simp: in_subtree_def prefix_def)
  then have "a = (fst T, snd T @ rel)" and "drop (length (snd T)) (snd a) = rel"
    by (metis prod.collapse, simp)
  with assms(1) show ?thesis
    by (simp add: getRep_append)
qed

lemma reparented_clone_node:
  assumes s: "clone_setting h T n rep" and a: "getRep h a = Some y" and i: "in_subtree T a"
  shows "getRep (reparented_heap h n rep) (relocate T n a)
    = Some (map_nodes (reparent_node n) (drop (length (snd T)) (snd a)) y)"
proof -
  from s have T: "getRep h T = Some rep" by (simp add: clone_setting_def)
  from subtree_node [OF T i] a
  have "subfeature_at rep (drop (length (snd T)) (snd a)) = Some y" by simp
  then show ?thesis
    by (simp add: reparented_getRep [OF s] relocate_def)
qed

lemma placement_correspondence:
  assumes s: "clone_setting h T n rep" and v: "getPlacementExpression h pl = Some pr"
  shows "findCorrespondingPlacement (reparented_heap h n rep) T pl (n, [])
    = Some (Inr (remap_slot T n (Some pl)))"
proof -
  let ?h1 = "reparented_heap h n rep"
  from s have oc: "owners_consistent h" by (simp add: clone_setting_def)
  from v obtain y where y: "getRep h (fst pl) = Some y"
    and i: "snd pl < length (placementExpressions y)" and p: "pr = placementExpressions y ! snd pl"
    by (auto simp: getPlacementExpression_def split: option.splits if_splits)
  from reparented_old [OF s, of "fst pl"] y have "getRep ?h1 (fst pl) = Some y" by simp
  with i p have v1: "getPlacementExpression ?h1 pl = Some pr"
    by (simp add: getPlacementExpression_def)
  from owners_expression [OF oc v]
  have o: "owner pr = Some (fst pl)" and ix: "indexInOwner pr = int (snd pl)" by simp_all
  have c: "findCorrespondingFeature ?h1 T (fst pl) (n, [])
      = Some (Inr (if in_subtree T (fst pl) then Some (relocate T n (fst pl)) else None))"
    using reparented_correspondence [OF s, of "fst pl"] y by (simp add: remap_feature_def)
  have pl: "pl = (fst pl, snd pl)" by simp
  show ?thesis
  proof (cases "in_subtree T (fst pl)")
    case False
    with v1 o c have "findCorrespondingPlacement ?h1 T pl (n, []) = Some (Inr None)"
      by (simp add: findCorrespondingPlacement_def bindR_def)
    moreover from False have "remap_slot T n (Some pl) = None"
      by (simp add: remap_slot_def case_prod_beta)
    ultimately show ?thesis by simp
  next
    case True
    let ?rel = "drop (length (snd T)) (snd (fst pl))"
    let ?c = "map_nodes (reparent_node n) ?rel y"
    from reparented_clone_node [OF s y True]
    have g: "getRep ?h1 (relocate T n (fst pl)) = Some ?c" .
    have pe: "placementExpressions ?c
        = map (\<lambda>(j, e). setOwner (n, ?rel) (int j) e) (enumerate 0 (placementExpressions y))"
      by (simp add: map_nodes_sel reparent_node_def)
    have l: "length (placementExpressions ?c) = length (placementExpressions y)"
      by (simp add: pe)
    have np: "placementExpressions ?c ! snd pl = setOwner (n, ?rel) (int (snd pl)) pr"
      using i p by (simp add: pe nth_enumerate_eq)
    have r: "relocate T n (fst pl) = (n, ?rel)" by (simp add: relocate_def)
    from v1 o ix c True g l i np r
    have "findCorrespondingPlacement ?h1 T pl (n, [])
        = Some (Inr (Some (relocate T n (fst pl), snd pl)))"
      by (simp add: findCorrespondingPlacement_def bindR_def Let_def setOwner_def)
    moreover from True have "remap_slot T n (Some pl) = Some (relocate T n (fst pl), snd pl)"
      by (simp add: remap_slot_def case_prod_beta)
    ultimately show ?thesis by simp
  qed
qed

lemma value_correspondence:
  assumes s: "clone_setting h T n rep" and v: "getPlacementValue h pl = Some vr"
  shows "findCorrespondingPlacementValue (reparented_heap h n rep) T pl (n, [])
    = Some (Inr (remap_slot T n (Some pl)))"
proof -
  let ?h1 = "reparented_heap h n rep"
  from s have oc: "owners_consistent h" by (simp add: clone_setting_def)
  from v obtain y where y: "getRep h (fst pl) = Some y"
    and i: "snd pl < length (placementValues y)" and p: "vr = placementValues y ! snd pl"
    by (auto simp: getPlacementValue_def split: option.splits if_splits)
  from reparented_old [OF s, of "fst pl"] y have "getRep ?h1 (fst pl) = Some y" by simp
  with i p have v1: "getPlacementValue ?h1 pl = Some vr"
    by (simp add: getPlacementValue_def)
  from owners_value [OF oc v]
  have o: "valueOwner vr = Some (fst pl)" and ix: "valueIndexInOwner vr = int (snd pl)" by simp_all
  have c: "findCorrespondingFeature ?h1 T (fst pl) (n, [])
      = Some (Inr (if in_subtree T (fst pl) then Some (relocate T n (fst pl)) else None))"
    using reparented_correspondence [OF s, of "fst pl"] y by (simp add: remap_feature_def)
  have pl: "pl = (fst pl, snd pl)" by simp
  show ?thesis
  proof (cases "in_subtree T (fst pl)")
    case False
    with v1 o c have "findCorrespondingPlacementValue ?h1 T pl (n, []) = Some (Inr None)"
      by (simp add: findCorrespondingPlacementValue_def bindR_def)
    moreover from False have "remap_slot T n (Some pl) = None"
      by (simp add: remap_slot_def case_prod_beta)
    ultimately show ?thesis by simp
  next
    case True
    let ?rel = "drop (length (snd T)) (snd (fst pl))"
    let ?c = "map_nodes (reparent_node n) ?rel y"
    from reparented_clone_node [OF s y True]
    have g: "getRep ?h1 (relocate T n (fst pl)) = Some ?c" .
    have pe: "placementValues ?c
        = map (\<lambda>(j, e). setValueOwner (n, ?rel) (int j) e) (enumerate 0 (placementValues y))"
      by (simp add: map_nodes_sel reparent_node_def)
    have l: "length (placementValues ?c) = length (placementValues y)"
      by (simp add: pe)
    have np: "placementValues ?c ! snd pl = setValueOwner (n, ?rel) (int (snd pl)) vr"
      using i p by (simp add: pe nth_enumerate_eq)
    have r: "relocate T n (fst pl) = (n, ?rel)" by (simp add: relocate_def)
    from v1 o ix c True g l i np r
    have "findCorrespondingPlacementValue ?h1 T pl (n, [])
        = Some (Inr (Some (relocate T n (fst pl), snd pl)))"
      by (simp add: findCorrespondingPlacementValue_def bindR_def Let_def setValueOwner_def)
    moreover from True have "remap_slot T n (Some pl) = Some (relocate T n (fst pl), snd pl)"
      by (simp add: remap_slot_def case_prod_beta)
    ultimately show ?thesis by simp
  qed
qed

section \<open>The pass that repairs the references\<close>

lemma fix_expressions_clone:
  assumes s: "clone_setting h T n rep"
  shows "list_all (\<lambda>e. case valueRef e of None \<Rightarrow> True | Some v \<Rightarrow> getPlacementValue h v \<noteq> None) pes
    \<Longrightarrow> fix_expressions (reparented_heap h n rep) T (n, [])
          (map (\<lambda>(i, e). setOwner (n, q) (int i) e) (enumerate k pes))
        = Some (Inr (map (clone_expression h T n q) (enumerate k pes)))"
proof (induction pes arbitrary: k)
  case Nil
  show ?case by simp
next
  case (Cons e pes)
  let ?h1 = "reparented_heap h n rep"
  let ?p0 = "setOwner (n, q) (int k) e"
  let ?p1 = "?p0\<lparr>featureRefs := map (remap_feature h T n) (featureRefs e)\<rparr>"
  have f: "repairFeatureReferences ?h1 T (n, []) ?p0 = Some (Inr ?p1)"
    using repair_refs_remap [OF s, of "featureRefs e"]
    by (simp add: repairFeatureReferences_def bindR_def setOwner_def)
  have v: "repairValueReference ?h1 T (n, []) ?p1 = Some (Inr (clone_expression h T n q (k, e)))"
  proof (cases "valueRef e")
    case None
    then show ?thesis
      by (simp add: repairValueReference_def setOwner_def clone_expression_def)
  next
    case (Some v)
    with Cons.prems obtain vr where "getPlacementValue h v = Some vr" by auto
    from value_correspondence [OF s this] Some show ?thesis
      by (simp add: repairValueReference_def bindR_def setOwner_def clone_expression_def)
  qed
  from Cons.prems have "list_all (\<lambda>e. case valueRef e of None \<Rightarrow> True
      | Some v \<Rightarrow> getPlacementValue h v \<noteq> None) pes"
    by simp
  from Cons.IH [OF this, of "Suc k"] f v show ?case
    by (simp add: bindR_def)
qed

lemma fixPlacements_clone:
  assumes s: "clone_setting h T n rep"
  shows "all_nodes (node_pointers_valid h) p y \<Longrightarrow>
     fixPlacements (reparented_heap h n rep) T (n, []) (map_nodes (reparent_node n) q y)
       = Some (Inr (map_nodes (clone_node h T n) q y))"
    and "all_nodes_list (node_pointers_valid h) p i cs \<Longrightarrow>
     fix_subfeatures (reparented_heap h n rep) T (n, []) (map_nodes_list (reparent_node n) q j cs)
       = Some (Inr (map_nodes_list (clone_node h T n) q j cs))"
proof (induction "node_pointers_valid h" p y and "node_pointers_valid h" p i cs
    arbitrary: q and q j rule: all_nodes_all_nodes_list.induct)
  case (1 p nm tn rt par idx subs pes pvs pl)
  let ?h1 = "reparented_heap h n rep"
  let ?y = "FeatureRep nm tn rt par idx subs pes pvs pl"
  from "1.prems" have valid: "node_pointers_valid h p ?y"
    and al: "all_nodes_list (node_pointers_valid h) p 0 subs"
    by simp_all
  from "1.hyps" [OF al, of q 0]
  have subs: "fix_subfeatures ?h1 T (n, []) (map_nodes_list (reparent_node n) q 0 subs)
      = Some (Inr (map_nodes_list (clone_node h T n) q 0 subs))" .
  from valid have "list_all (\<lambda>e. case valueRef e of None \<Rightarrow> True
      | Some v \<Rightarrow> getPlacementValue h v \<noteq> None) pes"
    by (simp add: node_pointers_valid_def)
  from fix_expressions_clone [OF s this, of q 0]
  have ex: "fix_expressions ?h1 T (n, [])
        (map (\<lambda>(i, e). setOwner (n, q) (int i) e) (enumerate 0 pes))
      = Some (Inr (map (clone_expression h T n q) (enumerate 0 pes)))" .
  have pt: "(case pl of None \<Rightarrow> Some (Inr None)
             | Some p \<Rightarrow> findCorrespondingPlacement ?h1 T p (n, []))
      = Some (Inr (remap_slot T n pl))"
  proof (cases pl)
    case None
    then show ?thesis by simp
  next
    case (Some a)
    with valid obtain pr where "getPlacementExpression h a = Some pr"
      by (auto simp: node_pointers_valid_def)
    from placement_correspondence [OF s this] Some show ?thesis by simp
  qed
  from subs ex pt show ?case
    by (simp add: reparent_node_def clone_node_def bindR_def)
next
  case (2 p i)
  show ?case by simp
next
  case (3 p i c cs)
  from "3.prems" have ac: "all_nodes (node_pointers_valid h) (p @ [i]) c"
    and al: "all_nodes_list (node_pointers_valid h) p (Suc i) cs"
    by simp_all
  from "3.hyps"(1) [OF ac, of "q @ [j]"] "3.hyps"(2) [OF al, of q "Suc j"]
  show ?case by simp
qed

lemma same_shape_map_nodes:
  "same_shape y (map_nodes g q y)"
  and same_shape_list_map_nodes:
  "same_shape_list cs (map_nodes_list g q i cs)"
proof (induction g q y and g q i cs rule: map_nodes_map_nodes_list.induct)
  case (1 g p nm tn rt par idx subs pes pvs pl)
  then show ?case by simp
next
  case (2 g p i)
  show ?case by simp
next
  case (3 g p i c cs)
  then show ?case by simp
qed

lemma setting_owned:
  assumes "clone_setting h T n rep"
  shows "parents_ok T rep" and "all_nodes (node_owns (fst T)) (snd T) rep"
proof -
  from assms have c: "parents_consistent h" and o: "owners_consistent h"
    and T: "getRep h T = Some rep"
    by (simp_all add: clone_setting_def)
  from consistent_node [OF c, of "fst T" "snd T" rep] T show "parents_ok T rep" by simp
  from T obtain t where t: "fst T < length h" "h ! fst T = Some t"
    and sub: "subfeature_at t (snd T) = Some rep"
    by (auto simp: getRep_def split: if_splits option.splits)
  from roots_own_nth [of 0 h "fst T" t] o t have "all_nodes (node_owns (fst T)) [] t"
    by (simp add: owners_consistent_def)
  from all_nodes_sub [OF this sub] show "all_nodes (node_owns (fst T)) (snd T) rep" by simp
qed

lemma clone_refines:
  assumes s: "clone_setting h T n rep"
  shows "cloneWithoutParentOrExternalPlacements h T n
    = Some (Inr (h[n := Some (expected_clone h T n rep)]))"
proof -
  from s have T: "getRep h T = Some rep" and n: "n < length h" "h ! n = None"
    and v: "all_nodes (node_pointers_valid h) [] rep"
    by (simp_all add: clone_setting_def)
  have r: "reparentMyChildren (n, []) (clearParent rep) = Inr (map_nodes (reparent_node n) [] rep)"
    using setting_owned [OF s] by (rule reparent_clone)
  have f: "fixPlacements (h[n := Some (map_nodes (reparent_node n) [] rep)]) T (n, [])
        (map_nodes (reparent_node n) [] rep)
      = Some (Inr (map_nodes (clone_node h T n) [] rep))"
    using fixPlacements_clone(1) [OF s v, of "[]"] by (simp add: reparented_heap_def)
  from T n r f show ?thesis
    by (simp add: cloneWithoutParentOrExternalPlacements_def bindR_def expected_clone_def)
qed

section \<open>The example heap with placements\<close>

lemma placed_heap_made:
  "bindR (place no_conversion no_hook example_heap (0, [0, 0]) (constant_placement RealPlacementType))
     (\<lambda>h1. bindR (place no_conversion no_hook h1 (0, [0, 1])
                     (reference_placement StationPlacementType (0, [1])))
     (\<lambda>h2. place no_conversion no_hook h2 (0, [0])
                     (reference_placement FramePlacementType (0, [0, 1]))))
   = Some (Inr placed_heap)"
  by code_simp

section \<open>The copy refers to nothing outside itself\<close>

lemma clone_getRep:
  "n < length h \<Longrightarrow>
   getRep (h[n := Some (expected_clone h T n rep)]) (n, rel)
     = map_option (map_nodes (clone_node h T n) rel) (subfeature_at rep rel)"
  by (simp add: getRep_root_update expected_clone_def map_nodes_at)

lemma clone_relocate:
  assumes s: "clone_setting h T n rep" and a: "getRep h a = Some ya" and i: "in_subtree T a"
  shows "getRep (h[n := Some (expected_clone h T n rep)]) (relocate T n a)
     = Some (map_nodes (clone_node h T n) (snd (relocate T n a)) ya)"
proof -
  from s have T: "getRep h T = Some rep" and n: "n < length h"
    by (simp_all add: clone_setting_def)
  from subtree_node [OF T i] a have "subfeature_at rep (drop (length (snd T)) (snd a)) = Some ya"
    by simp
  with clone_getRep [OF n, of T rep "drop (length (snd T)) (snd a)"] show ?thesis
    by (simp add: relocate_def)
qed

lemma remap_feature_inside:
  assumes s: "clone_setting h T n rep"
  shows "feature_inside (h[n := Some (expected_clone h T n rep)]) n (remap_feature h T n r)"
proof (cases r)
  case None
  then show ?thesis by (simp add: feature_inside_def)
next
  case (Some f)
  show ?thesis
  proof (cases "getRep h f \<noteq> None \<and> in_subtree T f")
    case True
    then obtain y where "getRep h f = Some y" and "in_subtree T f" by auto
    from clone_relocate [OF s this] Some True show ?thesis
      by (simp add: feature_inside_def remap_feature_def relocate_def)
  next
    case False
    with Some show ?thesis by (auto simp: feature_inside_def remap_feature_def)
  qed
qed

lemma remap_value_inside:
  assumes s: "clone_setting h T n rep" and v: "getPlacementValue h (a, i) \<noteq> None"
    and t: "in_subtree T a"
  shows "getPlacementValue (h[n := Some (expected_clone h T n rep)]) (relocate T n a, i) \<noteq> None"
proof -
  from v obtain ya where a: "getRep h a = Some ya" and i: "i < length (placementValues ya)"
    by (auto simp: getPlacementValue_def split: option.splits if_splits)
  from clone_relocate [OF s a t] i show ?thesis
    by (simp add: getPlacementValue_def map_nodes_sel clone_node_def)
qed

lemma remap_expression_inside:
  assumes s: "clone_setting h T n rep" and v: "getPlacementExpression h (a, i) \<noteq> None"
    and t: "in_subtree T a"
  shows "getPlacementExpression (h[n := Some (expected_clone h T n rep)]) (relocate T n a, i) \<noteq> None"
proof -
  from v obtain ya where a: "getRep h a = Some ya" and i: "i < length (placementExpressions ya)"
    by (auto simp: getPlacementExpression_def split: option.splits if_splits)
  from clone_relocate [OF s a t] i show ?thesis
    by (simp add: getPlacementExpression_def map_nodes_sel clone_node_def)
qed

lemma clone_closed:
  assumes s: "clone_setting h T n rep"
  shows "all_nodes (node_inside (h[n := Some (expected_clone h T n rep)]) n) []
           (expected_clone h T n rep)"
proof (rule all_nodes_intro)
  fix rel x
  let ?h = "h[n := Some (expected_clone h T n rep)]"
  assume x: "subfeature_at (expected_clone h T n rep) rel = Some x"
  from s have n: "n < length h" and v: "all_nodes (node_pointers_valid h) [] rep"
    by (simp_all add: clone_setting_def)
  from x obtain y where y: "subfeature_at rep rel = Some y"
    and xy: "x = map_nodes (clone_node h T n) rel y"
    by (auto simp: expected_clone_def map_nodes_at)
  from all_nodes_at [OF v y] have valid: "node_pointers_valid h rel y" by simp
  from clone_getRep [OF n, of T rep rel] y have self: "getRep ?h (n, rel) \<noteq> None" by simp
  have par: "feature_inside ?h n (parent x)"
  proof (cases rel rule: rev_cases)
    case Nil
    with xy show ?thesis by (simp add: map_nodes_sel clone_node_def feature_inside_def)
  next
    case (snoc q i)
    with y have "subfeature_at rep q \<noteq> None"
      by (auto simp: subfeature_at_append split: option.splits)
    with clone_getRep [OF n, of T rep q] have "getRep ?h (n, q) \<noteq> None" by auto
    with xy snoc show ?thesis by (simp add: map_nodes_sel clone_node_def feature_inside_def)
  qed
  have "\<forall>e\<in>set (placementExpressions x). feature_inside ?h n (owner e)
                      \<and> list_all (feature_inside ?h n) (featureRefs e)
                      \<and> (case valueRef e of None \<Rightarrow> True
                          | Some v \<Rightarrow> fst (fst v) = n \<and> getPlacementValue ?h v \<noteq> None)"
  proof
    fix e'
    assume "e' \<in> set (placementExpressions x)"
    with xy obtain ie where ie: "ie \<in> set (enumerate 0 (placementExpressions y))"
      and e': "e' = clone_expression h T n rel ie"
      by (auto simp: map_nodes_sel clone_node_def)
    obtain k e where ke: "ie = (k, e)" by (cases ie)
    with ie have mem: "snd ie \<in> set (placementExpressions y)"
      by (auto simp: in_set_enumerate_eq)
    have o: "feature_inside ?h n (owner e')"
      using self e' by (simp add: clone_expression_def feature_inside_def)
    have r: "list_all (feature_inside ?h n) (featureRefs e')"
      using e' remap_feature_inside [OF s] by (simp add: clone_expression_def list_all_iff)
    have w: "(case valueRef e' of None \<Rightarrow> True
              | Some v \<Rightarrow> fst (fst v) = n \<and> getPlacementValue ?h v \<noteq> None)"
    proof (cases "valueRef (snd ie)")
      case None
      with e' show ?thesis by (simp add: clone_expression_def remap_slot_def)
    next
      case (Some v)
      obtain a i where vi: "v = (a, i)" by (cases v)
      from valid mem Some vi have "getPlacementValue h (a, i) \<noteq> None"
        by (auto simp: node_pointers_valid_def list_all_iff)
      from remap_value_inside [OF s this] Some vi e' show ?thesis
        by (simp add: clone_expression_def remap_slot_def relocate_def)
    qed
    from o r w show "feature_inside ?h n (owner e')
        \<and> list_all (feature_inside ?h n) (featureRefs e')
        \<and> (case valueRef e' of None \<Rightarrow> True
            | Some v \<Rightarrow> fst (fst v) = n \<and> getPlacementValue ?h v \<noteq> None)"
      by blast
  qed
  then have ex: "list_all (\<lambda>e. feature_inside ?h n (owner e)
                      \<and> list_all (feature_inside ?h n) (featureRefs e)
                      \<and> (case valueRef e of None \<Rightarrow> True
                          | Some v \<Rightarrow> fst (fst v) = n \<and> getPlacementValue ?h v \<noteq> None))
          (placementExpressions x)"
    by (simp add: list_all_iff)
  have vals: "list_all (\<lambda>v. feature_inside ?h n (valueOwner v)) (placementValues x)"
    using self xy
    by (auto simp: list_all_iff map_nodes_sel clone_node_def feature_inside_def setValueOwner_def)
  have pl: "(case placement x of None \<Rightarrow> True
          | Some pl \<Rightarrow> fst (fst pl) = n \<and> getPlacementExpression ?h pl \<noteq> None)"
  proof (cases "placement y")
    case None
    with xy show ?thesis by (simp add: map_nodes_sel clone_node_def remap_slot_def)
  next
    case (Some v)
    obtain a i where vi: "v = (a, i)" by (cases v)
    from valid Some vi have "getPlacementExpression h (a, i) \<noteq> None"
      by (auto simp: node_pointers_valid_def)
    from remap_expression_inside [OF s this] Some vi xy show ?thesis
      by (simp add: map_nodes_sel clone_node_def remap_slot_def relocate_def)
  qed
  from par ex vals pl show "node_inside ?h n ([] @ rel) x"
    unfolding node_inside_def by blast
qed

lemma map_enumerate_snd:
  "map (\<lambda>ie. F (snd ie)) (enumerate k xs) = map F xs"
  by (induction xs arbitrary: k) simp_all

lemma clone_node_refs:
  "map featureRefs (placementExpressions (clone_node h T n rel y))
     = map (\<lambda>e. map (remap_feature h T n) (featureRefs e)) (placementExpressions y)"
  "map valueRef (placementExpressions (clone_node h T n rel y))
     = map (\<lambda>e. remap_slot T n (valueRef e)) (placementExpressions y)"
  "map owner (placementExpressions (clone_node h T n rel y))
     = map (\<lambda>e. Some (n, rel)) (placementExpressions y)"
  "map valueOwner (placementValues (clone_node h T n rel y))
     = map (\<lambda>v. Some (n, rel)) (placementValues y)"
  "placement (clone_node h T n rel y) = remap_slot T n (placement y)"
  "parent (clone_node h T n rel y) = (if rel = [] then None else Some (n, butlast rel))"
  "name (clone_node h T n rel y) = name y"
proof -
  show "map featureRefs (placementExpressions (clone_node h T n rel y))
     = map (\<lambda>e. map (remap_feature h T n) (featureRefs e)) (placementExpressions y)"
    using map_enumerate_snd [of "\<lambda>e. map (remap_feature h T n) (featureRefs e)" 0
        "placementExpressions y"]
    by (simp add: clone_node_def clone_expression_def comp_def)
  show "map valueRef (placementExpressions (clone_node h T n rel y))
     = map (\<lambda>e. remap_slot T n (valueRef e)) (placementExpressions y)"
    using map_enumerate_snd [of "\<lambda>e. remap_slot T n (valueRef e)" 0 "placementExpressions y"]
    by (simp add: clone_node_def clone_expression_def comp_def)
  show "map owner (placementExpressions (clone_node h T n rel y))
     = map (\<lambda>e. Some (n, rel)) (placementExpressions y)"
    using map_enumerate_snd [of "\<lambda>e. Some (n, rel)" 0 "placementExpressions y"]
    by (simp add: clone_node_def clone_expression_def comp_def)
  show "map valueOwner (placementValues (clone_node h T n rel y))
     = map (\<lambda>v. Some (n, rel)) (placementValues y)"
    using map_enumerate_snd [of "\<lambda>e. Some (n, rel)" 0 "placementValues y"]
    by (simp add: clone_node_def setValueOwner_def comp_def case_prod_beta)
  show "placement (clone_node h T n rel y) = remap_slot T n (placement y)"
    by (simp add: clone_node_def)
  show "parent (clone_node h T n rel y) = (if rel = [] then None else Some (n, butlast rel))"
    by (simp add: clone_node_def)
  show "name (clone_node h T n rel y) = name y"
    by (simp add: clone_node_def)
qed

text \<open>
  Claim C2. Let the heap satisfy the invariants of parents and of owners, let the pointers
  held in the subtree at \<open>T\<close> be valid, and let \<open>n\<close> be an empty handle. Then
  \<^verbatim>\<open>cloneWithoutParentOrExternalPlacements\<close> returns, and stores under \<open>n\<close> a copy
  \<open>c\<close> such that: the parent and the index of \<open>c\<close> are none; no parent pointer, owner,
  Feature reference, value reference or active placement of a node of \<open>c\<close> resolves
  outside the tree of \<open>n\<close>; and the node of \<open>c\<close> at each relative position holds the
  references of the node of the original at that position, a reference into the original
  subtree moved to the same relative position of the copy and any other reference cleared.
\<close>

theorem clone_purity:
  assumes "clone_setting h T n rep"
  shows "\<exists>c. cloneWithoutParentOrExternalPlacements h T n = Some (Inr (h[n := Some c]))
      \<and> parent c = None \<and> indexInParent c = - 1
      \<and> all_nodes (node_inside (h[n := Some c]) n) [] c
      \<and> (\<forall>rel y. subfeature_at rep rel = Some y \<longrightarrow>
           (\<exists>x. getRep (h[n := Some c]) (n, rel) = Some x
              \<and> name x = name y
              \<and> parent x = (if rel = [] then None else Some (n, butlast rel))
              \<and> map owner (placementExpressions x)
                  = map (\<lambda>e. Some (n, rel)) (placementExpressions y)
              \<and> map valueOwner (placementValues x)
                  = map (\<lambda>v. Some (n, rel)) (placementValues y)
              \<and> map featureRefs (placementExpressions x)
                  = map (\<lambda>e. map (remap_feature h T n) (featureRefs e)) (placementExpressions y)
              \<and> map valueRef (placementExpressions x)
                  = map (\<lambda>e. remap_slot T n (valueRef e)) (placementExpressions y)
              \<and> placement x = remap_slot T n (placement y)))"
proof (intro exI conjI allI impI)
  let ?c = "expected_clone h T n rep"
  from assms have n: "n < length h" by (simp add: clone_setting_def)
  show "cloneWithoutParentOrExternalPlacements h T n = Some (Inr (h[n := Some ?c]))"
    using assms by (rule clone_refines)
  show "parent ?c = None"
    by (simp add: expected_clone_def map_nodes_sel clone_node_def)
  show "indexInParent ?c = - 1"
    by (simp add: expected_clone_def map_nodes_sel clone_node_def)
  show "all_nodes (node_inside (h[n := Some ?c]) n) [] ?c"
    using assms by (rule clone_closed)
  fix rel y
  assume y: "subfeature_at rep rel = Some y"
  let ?x = "map_nodes (clone_node h T n) rel y"
  show "getRep (h[n := Some ?c]) (n, rel) = Some ?x"
    using clone_getRep [OF n, of T rep rel] y by simp
  show "name ?x = name y"
    by (simp add: map_nodes_sel clone_node_refs)
  show "parent ?x = (if rel = [] then None else Some (n, butlast rel))"
    by (simp only: map_nodes_sel clone_node_refs)
  show "map owner (placementExpressions ?x) = map (\<lambda>e. Some (n, rel)) (placementExpressions y)"
    by (simp only: map_nodes_sel clone_node_refs)
  show "map valueOwner (placementValues ?x) = map (\<lambda>v. Some (n, rel)) (placementValues y)"
    by (simp only: map_nodes_sel clone_node_refs)
  show "map featureRefs (placementExpressions ?x)
      = map (\<lambda>e. map (remap_feature h T n) (featureRefs e)) (placementExpressions y)"
    by (simp only: map_nodes_sel clone_node_refs)
  show "map valueRef (placementExpressions ?x)
      = map (\<lambda>e. remap_slot T n (valueRef e)) (placementExpressions y)"
    by (simp only: map_nodes_sel clone_node_refs)
  show "placement ?x = remap_slot T n (placement y)"
    by (simp only: map_nodes_sel clone_node_refs)
qed

theorem clone_purity_witness:
  "clone_setting placed_heap (0, [0]) 1 placed_A
   \<and> subfeature_at placed_A [0]
       = Some (FeatureRep ''X'' ''RealParameter'' RealPlacementType (Some (0, [0])) 0 [] [] []
                 (Some ((0, [0]), 0)))
   \<and> subfeature_at placed_A [1]
       = Some (FeatureRep ''Z'' ''Station'' StationPlacementType (Some (0, [0])) 1 [] [] []
                 (Some ((0, []), 0)))
   \<and> (\<exists>c. cloneWithoutParentOrExternalPlacements placed_heap (0, [0]) 1
              = Some (Inr (placed_heap[1 := Some c]))
         \<and> parent c = None \<and> indexInParent c = - 1
         \<and> all_nodes (node_inside (placed_heap[1 := Some c]) 1) [] c
         \<and> (\<exists>x. getRep (placed_heap[1 := Some c]) (1, [0]) = Some x
               \<and> name x = ''X'' \<and> parent x = Some (1, [])
               \<and> placement x = Some ((1, []), 0))
         \<and> (\<exists>z. getRep (placed_heap[1 := Some c]) (1, [1]) = Some z
               \<and> name z = ''Z'' \<and> parent z = Some (1, [])
               \<and> placement z = None))"
proof -
  let ?X = "FeatureRep ''X'' ''RealParameter'' RealPlacementType (Some (0, [0])) 0 [] [] []
                 (Some ((0, [0]), 0))"
  let ?Z = "FeatureRep ''Z'' ''Station'' StationPlacementType (Some (0, [0])) 1 [] [] []
                 (Some ((0, []), 0))"
  have s: "clone_setting placed_heap (0, [0]) 1 placed_A" by code_simp
  have X: "subfeature_at placed_A [0] = Some ?X" by code_simp
  have Z: "subfeature_at placed_A [1] = Some ?Z" by code_simp
  have rX: "remap_slot (0, [0]) 1 (placement ?X) = Some ((1, []), 0)" by code_simp
  have rZ: "remap_slot (0, [0]) 1 (placement ?Z) = None" by code_simp
  from clone_purity [OF s] obtain c where
    c1: "cloneWithoutParentOrExternalPlacements placed_heap (0, [0]) 1
              = Some (Inr (placed_heap[1 := Some c]))"
    and c2: "parent c = None" and c3: "indexInParent c = - 1"
    and c4: "all_nodes (node_inside (placed_heap[1 := Some c]) 1) [] c"
    and c5: "\<And>rel y. subfeature_at placed_A rel = Some y \<Longrightarrow>
           (\<exists>x. getRep (placed_heap[1 := Some c]) (1, rel) = Some x
              \<and> name x = name y
              \<and> parent x = (if rel = [] then None else Some (1, butlast rel))
              \<and> map owner (placementExpressions x)
                  = map (\<lambda>e. Some (1, rel)) (placementExpressions y)
              \<and> map valueOwner (placementValues x)
                  = map (\<lambda>v. Some (1, rel)) (placementValues y)
              \<and> map featureRefs (placementExpressions x)
                  = map (\<lambda>e. map (remap_feature placed_heap (0, [0]) 1) (featureRefs e))
                      (placementExpressions y)
              \<and> map valueRef (placementExpressions x)
                  = map (\<lambda>e. remap_slot (0, [0]) 1 (valueRef e)) (placementExpressions y)
              \<and> placement x = remap_slot (0, [0]) 1 (placement y))"
    by blast
  from c5 [OF X] rX have x: "\<exists>x. getRep (placed_heap[1 := Some c]) (1, [0]) = Some x
               \<and> name x = ''X'' \<and> parent x = Some (1, [])
               \<and> placement x = Some ((1, []), 0)"
    by auto
  from c5 [OF Z] rZ have z: "\<exists>z. getRep (placed_heap[1 := Some c]) (1, [1]) = Some z
               \<and> name z = ''Z'' \<and> parent z = Some (1, [])
               \<and> placement z = None"
    by auto
  from c1 c2 c3 c4 x z have "\<exists>c. cloneWithoutParentOrExternalPlacements placed_heap (0, [0]) 1
              = Some (Inr (placed_heap[1 := Some c]))
         \<and> parent c = None \<and> indexInParent c = - 1
         \<and> all_nodes (node_inside (placed_heap[1 := Some c]) 1) [] c
         \<and> (\<exists>x. getRep (placed_heap[1 := Some c]) (1, [0]) = Some x
               \<and> name x = ''X'' \<and> parent x = Some (1, [])
               \<and> placement x = Some ((1, []), 0))
         \<and> (\<exists>z. getRep (placed_heap[1 := Some c]) (1, [1]) = Some z
               \<and> name z = ''Z'' \<and> parent z = Some (1, [])
               \<and> placement z = None)"
    by blast
  with s X Z show ?thesis by blast
qed

section \<open>Correspondence between two trees of the same shape\<close>

lemma same_shape_sym:
  "same_shape f g \<Longrightarrow> same_shape g f"
  and same_shape_list_sym:
  "same_shape_list cs ds \<Longrightarrow> same_shape_list ds cs"
proof (induction f g and cs ds rule: same_shape_same_shape_list.induct)
  case (1 nm tn rt par idx subs pes pvs pl g)
  then show ?case by (cases g) simp
next
  case (2 ds)
  then show ?case by simp
next
  case (3 c cs ds)
  then show ?case by (cases ds) simp_all
qed

lemma isInTree_keeps_trace:
  "isInTree_loop h R f trace = Some y \<Longrightarrow> trace \<noteq> None \<Longrightarrow> snd y \<noteq> None"
proof (induction h R f trace y rule: isInTree_loop_induct)
  case (step loop h oldp fp trace y)
  then show ?case
    by (auto split: if_splits option.splits)
qed

lemma correspondence_forward:
  assumes c: "parents_consistent h"
    and R: "getRep h R = Some rrep" and N: "getRep h N = Some nrep"
    and sh: "same_shape rrep nrep" and r: "reaches h f R"
  shows "\<exists>rel. f = (fst R, snd R @ rel)
      \<and> isFeatureInFeatureTree h R f (Some []) = Some (True, Some (rev (map int rel)))
      \<and> follow_down h N (map int rel) = Inr (fst N, snd N @ rel)
      \<and> getRep h (fst N, snd N @ rel) \<noteq> None
      \<and> findCorrespondingFeature h R f N = Some (Inr (Some (fst N, snd N @ rel)))"
proof -
  from path_loop_up_total [OF c, of f "[]"] obtain chain where
    "path_loop_up h (Some f) [] = Some chain" by blast
  from isInTree_decides [OF this, of R "Some []"] r obtain tr where
    t: "isFeatureInFeatureTree h R f (Some []) = Some (True, tr)" by auto
  then have l: "isInTree_loop h R f (Some []) = Some (True, tr)"
    by (simp add: isFeatureInFeatureTree_def)
  from isInTree_keeps_trace [OF l] obtain trace where tr: "tr = Some trace" by auto
  from isInTree_trace [OF l c refl] tr obtain rel where
    rel: "trace = rev (map int rel)" "f = (fst R, snd R @ rel)"
    by auto
  from reaches_iff_in_subtree [OF c, of R f] R r have f: "getRep h f \<noteq> None" by simp
  with rel(2) R have "subfeature_at rrep rel \<noteq> None"
    by (simp add: getRep_append)
  from same_shape_at [OF sh this] N have g: "getRep h (fst N, snd N @ rel) \<noteq> None"
    by (simp add: getRep_append)
  from follow_down_path [OF this]
  have d: "follow_down h N (map int rel) = Inr (fst N, snd N @ rel)" by simp
  have sh': "\<And>rel. subfeature_at rrep rel \<noteq> None \<Longrightarrow> subfeature_at nrep rel \<noteq> None"
    using sh by (rule same_shape_at)
  have i: "in_subtree R f" using rel(2) by (simp add: in_subtree_def)
  from findCorrespondingFeature_relocates [OF c R N sh', of f] f i rel(2)
  have "findCorrespondingFeature h R f N = Some (Inr (Some (fst N, snd N @ rel)))"
    by simp
  with rel t tr d g show ?thesis by blast
qed

lemma correspondence_outside:
  assumes c: "parents_consistent h"
    and R: "getRep h R = Some rrep" and N: "getRep h N = Some nrep"
    and sh: "same_shape rrep nrep" and r: "\<not> reaches h f R"
  shows "findCorrespondingFeature h R f N = Some (Inr None)"
proof -
  have sh': "\<And>rel. subfeature_at rrep rel \<noteq> None \<Longrightarrow> subfeature_at nrep rel \<noteq> None"
    using sh by (rule same_shape_at)
  from reaches_iff_in_subtree [OF c, of R f] R r
  have "\<not> (getRep h f \<noteq> None \<and> in_subtree R f)" by simp
  with findCorrespondingFeature_relocates [OF c R N sh', of f] show ?thesis by simp
qed

lemma cloned_heap_made:
  "cloneWithoutParentOrExternalPlacements placed_heap (0, [0]) 1 = Some (Inr cloned_heap)"
  by code_simp

lemma parents_ok_clone:
  "parents_ok (n, q) (map_nodes (clone_node h T n) q y)"
  and parents_ok_list_clone:
  "parents_ok_list (n, q) i (map_nodes_list (clone_node h T n) q i cs)"
proof (induction "clone_node h T n" q y and "clone_node h T n" q i cs
    rule: map_nodes_map_nodes_list.induct)
  case (1 p nm tn rt par idx subs pes pvs pl)
  then show ?case by (simp add: parents_ok_unfold [of "(n, p)"])
next
  case (2 p i)
  show ?case by simp
next
  case (3 p i c cs)
  then show ?case by (simp add: map_nodes_sel clone_node_def)
qed

text \<open>
  The heap that the cloner returns satisfies the invariant of parents, and the copy has
  the shape of the original.
\<close>

lemma clone_isomorphic:
  assumes s: "clone_setting h T n rep"
  shows "parents_consistent (h[n := Some (expected_clone h T n rep)])"
    and "getRep (h[n := Some (expected_clone h T n rep)]) T = Some rep"
    and "getRep (h[n := Some (expected_clone h T n rep)]) (n, []) = Some (expected_clone h T n rep)"
    and "same_shape rep (expected_clone h T n rep)"
proof -
  from s have r: "roots_ok 0 h" and n: "n < length h" and T: "getRep h T = Some rep"
    by (simp_all add: clone_setting_def parents_consistent_def)
  have "parent (expected_clone h T n rep) = None"
    by (simp add: expected_clone_def map_nodes_sel clone_node_def)
  moreover have "parents_ok (0 + n, []) (expected_clone h T n rep)"
    using parents_ok_clone [of n "[]" h T rep] by (simp add: expected_clone_def)
  ultimately show "parents_consistent (h[n := Some (expected_clone h T n rep)])"
    unfolding parents_consistent_def by (rule roots_ok_update [OF r n])
  show "getRep (h[n := Some (expected_clone h T n rep)]) T = Some rep"
    using T setting_fresh(1) [OF s] by (simp add: getRep_root_update [OF n])
  show "getRep (h[n := Some (expected_clone h T n rep)]) (n, []) = Some (expected_clone h T n rep)"
    by (simp add: getRep_root_update [OF n])
  show "same_shape rep (expected_clone h T n rep)"
    unfolding expected_clone_def by (rule same_shape_map_nodes)
qed

text \<open>
  Claim C5. Let \<open>R\<close> and \<open>N\<close> be two Features of a heap that satisfies the invariant of
  parents, the tree below \<open>N\<close> having the shape of the tree below \<open>R\<close> (as the clone of
  \<open>R\<close> has). For a Feature \<open>f\<close> under \<open>R\<close>, \<^verbatim>\<open>findCorrespondingFeature\<close> from \<open>R\<close> to
  \<open>N\<close> returns the node reached from \<open>N\<close> by replaying, from the top, the trace that
  \<^verbatim>\<open>isFeatureInFeatureTree\<close> records for \<open>f\<close> under \<open>R\<close>, and the call from \<open>N\<close> back
  to \<open>R\<close> on that node returns \<open>f\<close>. For a Feature that is not under \<open>R\<close> the call
  returns none.
\<close>

theorem findCorrespondingFeature_round_trip:
  assumes "parents_consistent h"
    and "getRep h R = Some rrep" and "getRep h N = Some nrep"
    and "same_shape rrep nrep"
  shows "(reaches h f R \<longrightarrow>
           (\<exists>tr node. isFeatureInFeatureTree h R f (Some []) = Some (True, Some tr)
              \<and> follow_down h N (rev tr) = Inr node
              \<and> findCorrespondingFeature h R f N = Some (Inr (Some node))
              \<and> findCorrespondingFeature h N node R = Some (Inr (Some f))))
       \<and> (\<not> reaches h f R \<longrightarrow> findCorrespondingFeature h R f N = Some (Inr None))"
proof (intro conjI impI)
  assume r: "reaches h f R"
  from correspondence_forward [OF assms r] obtain rel where
    f: "f = (fst R, snd R @ rel)"
    and t: "isFeatureInFeatureTree h R f (Some []) = Some (True, Some (rev (map int rel)))"
    and d: "follow_down h N (map int rel) = Inr (fst N, snd N @ rel)"
    and g: "getRep h (fst N, snd N @ rel) \<noteq> None"
    and fw: "findCorrespondingFeature h R f N = Some (Inr (Some (fst N, snd N @ rel)))"
    by blast
  let ?node = "(fst N, snd N @ rel)"
  have sh': "\<And>rel. subfeature_at nrep rel \<noteq> None \<Longrightarrow> subfeature_at rrep rel \<noteq> None"
    using same_shape_sym [OF assms(4)] by (rule same_shape_at)
  have "in_subtree N ?node" by (simp add: in_subtree_def)
  with findCorrespondingFeature_relocates [OF assms(1) assms(3) assms(2) sh', of ?node] g f
  have bw: "findCorrespondingFeature h N ?node R = Some (Inr (Some f))"
    by simp
  from d have d': "follow_down h N (rev (rev (map int rel))) = Inr ?node" by simp
  from t d' fw bw
  show "\<exists>tr node. isFeatureInFeatureTree h R f (Some []) = Some (True, Some tr)
              \<and> follow_down h N (rev tr) = Inr node
              \<and> findCorrespondingFeature h R f N = Some (Inr (Some node))
              \<and> findCorrespondingFeature h N node R = Some (Inr (Some f))"
    by blast
next
  assume "\<not> reaches h f R"
  with assms show "findCorrespondingFeature h R f N = Some (Inr None)"
    by (rule correspondence_outside)
qed

theorem findCorrespondingFeature_round_trip_witness:
  "parents_consistent cloned_heap
   \<and> getRep cloned_heap (0, [0]) = Some placed_A
   \<and> getRep cloned_heap (1, []) = Some cloned_A
   \<and> same_shape placed_A cloned_A
   \<and> reaches cloned_heap (0, [0, 1]) (0, [0])
   \<and> (\<exists>tr node. isFeatureInFeatureTree cloned_heap (0, [0]) (0, [0, 1]) (Some [])
                    = Some (True, Some tr)
         \<and> follow_down cloned_heap (1, []) (rev tr) = Inr node
         \<and> findCorrespondingFeature cloned_heap (0, [0]) (0, [0, 1]) (1, [])
             = Some (Inr (Some node))
         \<and> findCorrespondingFeature cloned_heap (1, []) node (0, [0]) = Some (Inr (Some (0, [0, 1]))))
   \<and> \<not> reaches cloned_heap (0, [1]) (0, [0])
   \<and> findCorrespondingFeature cloned_heap (0, [0]) (0, [1]) (1, []) = Some (Inr None)"
proof -
  have c: "parents_consistent cloned_heap" by code_simp
  have R: "getRep cloned_heap (0, [0]) = Some placed_A" by code_simp
  have N: "getRep cloned_heap (1, []) = Some cloned_A" by code_simp
  have s: "same_shape placed_A cloned_A" by code_simp
  have "getRep cloned_heap (0, [0, 1]) \<noteq> None \<and> in_subtree (0, [0]) (0, [0, 1])"
    by code_simp
  with reaches_iff_in_subtree [OF c, of "(0, [0])" "(0, [0, 1])"] R
  have r1: "reaches cloned_heap (0, [0, 1]) (0, [0])" by simp
  have "\<not> in_subtree (0, [0]) (0, [1])" by code_simp
  with reaches_iff_in_subtree [OF c, of "(0, [0])" "(0, [1])"] R
  have r2: "\<not> reaches cloned_heap (0, [1]) (0, [0])" by simp
  from findCorrespondingFeature_round_trip [OF c R N s, of "(0, [0, 1])"] r1
  have a: "\<exists>tr node. isFeatureInFeatureTree cloned_heap (0, [0]) (0, [0, 1]) (Some [])
                    = Some (True, Some tr)
         \<and> follow_down cloned_heap (1, []) (rev tr) = Inr node
         \<and> findCorrespondingFeature cloned_heap (0, [0]) (0, [0, 1]) (1, [])
             = Some (Inr (Some node))
         \<and> findCorrespondingFeature cloned_heap (1, []) node (0, [0]) = Some (Inr (Some (0, [0, 1])))"
    by blast
  from findCorrespondingFeature_round_trip [OF c R N s, of "(0, [1])"] r2
  have b: "findCorrespondingFeature cloned_heap (0, [0]) (0, [1]) (1, []) = Some (Inr None)"
    by blast
  from c R N s r1 a r2 b show ?thesis by blast
qed

end
